theory Spec2Isabelle
  imports Main "HOL-Library.Word"
begin

unbundle bit_operations_syntax

section \<open>Bytes and machine words\<close>

text \<open>
  Both endpoints work on buffers of 8-bit bytes (\<open>uint8_t\<close> arrays on the consumer,
  \<open>Buffer\<close>/\<open>Uint8Array\<close> on the producer) and on 32-bit checksums. A buffer is
  a list of bytes; a pointer with a length is the list together with the declared length.
\<close>

type_synonym byte = "8 word"

type_synonym uint32 = "32 word"

section \<open>The consumer: \<open>src/main.cpp\<close>\<close>

subsection \<open>Bitwise \<open>crc32\<close>\<close>

text \<open>
  One iteration of the inner loop body:
  \<^verbatim>\<open>if (crc & 1) crc = (crc >> 1) ^ 0xEDB88320; else crc >>= 1;\<close>
\<close>

definition crc_shift :: "uint32 \<Rightarrow> uint32" where
  "crc_shift crc = (if crc AND 1 \<noteq> 0 then drop_bit 1 crc XOR 0xEDB88320 else drop_bit 1 crc)"

text \<open>The inner loop \<^verbatim>\<open>for (uint8_t j = 0; j < 8; j++)\<close>.\<close>

function crc_bits :: "nat \<Rightarrow> uint32 \<Rightarrow> uint32" where
  "crc_bits j crc = (if j < 8 then crc_bits (j + 1) (crc_shift crc) else crc)"
  by pat_completeness auto
termination
  by (relation "measure (\<lambda>(j, crc). 8 - j)") auto

declare crc_bits.simps [simp del]

text \<open>
  The outer loop \<^verbatim>\<open>for (size_t i = 0; i < length; i++) { crc ^= data[i]; ... }\<close>;
  the byte is zero-extended to 32 bits before the exclusive-or.
\<close>

function crc32_cpp_loop :: "byte list \<Rightarrow> nat \<Rightarrow> uint32 \<Rightarrow> uint32" where
  "crc32_cpp_loop data i crc =
     (if i < length data
      then crc32_cpp_loop data (i + 1) (crc_bits 0 (crc XOR ucast (data ! i)))
      else crc)"
  by pat_completeness auto
termination
  by (relation "measure (\<lambda>(data, i, crc). length data - i)") auto

declare crc32_cpp_loop.simps [simp del]

definition crc32_cpp :: "byte list \<Rightarrow> uint32" where
  "crc32_cpp data = NOT (crc32_cpp_loop data 0 0xFFFFFFFF)"

subsection \<open>Memory accesses\<close>

text \<open>
  The consumer is C++ working on raw arrays. An array is a list together with its
  declared size; an access outside the declared size is a fault, so that "never reads
  or writes out of bounds" is the statement that no fault is returned.
  \<open>size_t\<close> indices are natural numbers: an index never exceeds the declared size of
  its array by more than 128, and an array that exists in memory is smaller than the
  range of \<open>size_t\<close> by more than that, so index sums do not wrap.
\<close>

datatype fault = ReadOutOfBounds | WriteOutOfBounds

text \<open>\<^verbatim>\<open>src[s]\<close> on an array of declared size \<open>srcLen\<close>.\<close>

definition read_u8 :: "byte list \<Rightarrow> nat \<Rightarrow> nat \<Rightarrow> fault + byte" where
  "read_u8 src srcLen s = (if s < srcLen then Inr (src ! s) else Inl ReadOutOfBounds)"

text \<open>
  \<^verbatim>\<open>memcpy(&dst[d], &src[s], count)\<close>: reads \<open>src[s .. s+count)\<close> and writes
  \<open>dst[d .. d+count)\<close>; the other bytes of \<open>dst\<close> keep their values.
\<close>

definition memcpy :: "byte list \<Rightarrow> nat \<Rightarrow> nat \<Rightarrow> byte list \<Rightarrow> nat \<Rightarrow> nat \<Rightarrow> nat \<Rightarrow> fault + byte list" where
  "memcpy dst dstLen d src srcLen s count =
     (if srcLen < s + count then Inl ReadOutOfBounds
      else if dstLen < d + count then Inl WriteOutOfBounds
      else Inr (take d dst @ take count (drop s src) @ drop (d + count) dst))"

text \<open>\<^verbatim>\<open>memset(&dst[d], val, count)\<close>: writes \<open>dst[d .. d+count)\<close>.\<close>

definition memset :: "byte list \<Rightarrow> nat \<Rightarrow> nat \<Rightarrow> byte \<Rightarrow> nat \<Rightarrow> fault + byte list" where
  "memset dst dstLen d val count =
     (if dstLen < d + count then Inl WriteOutOfBounds
      else Inr (take d dst @ replicate count val @ drop (d + count) dst))"

subsection \<open>\<open>unpackBits\<close>\<close>

text \<open>
  The \<^verbatim>\<open>while (i < inputLen && j < maxOutputLen)\<close> loop. The control byte is read as
  \<open>int8_t\<close> (\<open>sint\<close>); \<open>count\<close> is a \<open>uint8_t\<close>, so \<open>n + 1\<close> and \<open>1 - n\<close>
  are truncated to 8 bits. \<open>continue\<close> is the recursive call with the state unchanged
  but for \<open>i\<close>, \<open>break\<close> returns \<open>j\<close> and the output as it stands.
\<close>

function unpackBits_loop ::
  "byte list \<Rightarrow> nat \<Rightarrow> nat \<Rightarrow> nat \<Rightarrow> nat \<Rightarrow> byte list \<Rightarrow> fault + (nat \<times> byte list)" where
  "unpackBits_loop input inputLen maxOutputLen i j output =
     (if i < inputLen \<and> j < maxOutputLen then
        (case read_u8 input inputLen i of
           Inl f \<Rightarrow> Inl f
         | Inr b \<Rightarrow>
             let n = sint b; i1 = i + 1 in
             if n = - 128 then unpackBits_loop input inputLen maxOutputLen i1 j output
             else if 0 \<le> n then
               let count = unat (word_of_int (n + 1) :: byte) in
               if maxOutputLen < j + count \<or> inputLen < i1 + count then Inr (j, output)
               else (case memcpy output maxOutputLen j input inputLen i1 count of
                       Inl f \<Rightarrow> Inl f
                     | Inr output' \<Rightarrow>
                         unpackBits_loop input inputLen maxOutputLen (i1 + count) (j + count) output')
             else
               let count = unat (word_of_int (1 - n) :: byte) in
               if maxOutputLen < j + count \<or> inputLen \<le> i1 then Inr (j, output)
               else (case read_u8 input inputLen i1 of
                       Inl f \<Rightarrow> Inl f
                     | Inr val \<Rightarrow>
                         (case memset output maxOutputLen j val count of
                            Inl f \<Rightarrow> Inl f
                          | Inr output' \<Rightarrow>
                              unpackBits_loop input inputLen maxOutputLen (i1 + 1) (j + count) output')))
      else Inr (j, output))"
  by pat_completeness auto
termination
  by (relation "measure (\<lambda>(input, inputLen, maxOutputLen, i, j, output). inputLen - i)") auto

declare unpackBits_loop.simps [simp del]

definition unpackBits :: "byte list \<Rightarrow> nat \<Rightarrow> byte list \<Rightarrow> nat \<Rightarrow> fault + (nat \<times> byte list)" where
  "unpackBits input inputLen output maxOutputLen = unpackBits_loop input inputLen maxOutputLen 0 0 output"

subsection \<open>Frame messages and device state\<close>

text \<open>
  Modelled from the spec: the frame message with its kind (Full or Delta), its payload
  and its 32-bit checksum. The generated header \<open>frame_generated.h\<close>, which declares
  \<open>Futaba::Frame\<close> and \<open>Futaba::FrameType\<close>, is not among the sources. The fields
  are the accessors that \<open>onPacketReceived\<close> calls: \<open>type()\<close>, \<open>data()\<close> (a
  pointer, null when the field is absent) and \<open>crc32()\<close>. \<open>FrameType_Other\<close> stands
  for every value of the enumeration that is neither \<open>FrameType_Full\<close> nor
  \<open>FrameType_Delta\<close>.
\<close>

datatype FrameType = FrameType_Full | FrameType_Delta | FrameType_Other

record Frame =
  frame_type :: FrameType
  frame_data :: "byte list option"
  frame_crc32 :: uint32

text \<open>
  What a packet can change: the global \<open>currentFrame[560]\<close>, the bytes written to
  \<open>Serial\<close> (oldest first), and the images handed to the display driver (oldest first).
\<close>

record Device =
  currentFrame :: "byte list"
  serial_tx :: "byte list"
  vfd_images :: "byte list list"

definition STATUS_OK :: byte where
  "STATUS_OK = 0xA5"

definition STATUS_ERR_VERIFY :: byte where
  "STATUS_ERR_VERIFY = 0xE1"

definition STATUS_ERR_NODATA :: byte where
  "STATUS_ERR_NODATA = 0xE2"

definition STATUS_ERR_OTHER :: byte where
  "STATUS_ERR_OTHER = 0xE3"

definition sendStatus :: "byte \<Rightarrow> Device \<Rightarrow> Device" where
  "sendStatus code dev = dev\<lparr>serial_tx := serial_tx dev @ [code]\<rparr>"

text \<open>
  \<^verbatim>\<open>std::vector<uint8_t> image(currentFrame, currentFrame + 560); vfd.displayGraphicImage(image, 140, 32);\<close>
\<close>

definition displayGraphicImage :: "Device \<Rightarrow> Device" where
  "displayGraphicImage dev = dev\<lparr>vfd_images := vfd_images dev @ [take 560 (currentFrame dev)]\<rparr>"

subsection \<open>\<open>onPacketReceived\<close>\<close>

text \<open>
  \<^verbatim>\<open>for (size_t i = 0; i < 560; i++) currentFrame[i] ^= deltaBuffer[i];\<close> with \<open>n\<close>
  the loop bound; both arrays have \<open>n\<close> elements.
\<close>

function apply_delta_loop :: "nat \<Rightarrow> nat \<Rightarrow> byte list \<Rightarrow> byte list \<Rightarrow> byte list" where
  "apply_delta_loop n i frameState deltaBuffer =
     (if i < n
      then apply_delta_loop n (i + 1)
             (frameState[i := frameState ! i XOR deltaBuffer ! i]) deltaBuffer
      else frameState)"
  by pat_completeness auto
termination
  by (relation "measure (\<lambda>(n, i, frameState, deltaBuffer). n - i)") auto

declare apply_delta_loop.simps [simp del]

text \<open>
  Lines 88 to 100 of \<open>onPacketReceived\<close>: the effect of a verified frame on
  \<open>currentFrame\<close>. \<open>deltaBuffer\<close> is the local array \<open>uint8_t deltaBuffer[560]\<close> with
  whatever the stack holds.
\<close>

definition applyFrame :: "FrameType \<Rightarrow> byte list \<Rightarrow> byte list \<Rightarrow> byte list \<Rightarrow> fault + byte list" where
  "applyFrame type dataVector deltaBuffer frameState =
     (let dataLen = length dataVector in
      if type = FrameType_Full then
        (if dataLen \<le> 560 then memcpy frameState 560 0 dataVector dataLen 0 dataLen
         else Inr frameState)
      else if type = FrameType_Delta then
        (case unpackBits dataVector dataLen deltaBuffer 560 of
           Inl f \<Rightarrow> Inl f
         | Inr (decodedLen, deltaBuffer') \<Rightarrow>
             if decodedLen = 560 then Inr (apply_delta_loop 560 0 frameState deltaBuffer')
             else Inr frameState)
      else Inr frameState)"

text \<open>
  The packet handler. \<open>Futaba::VerifyFrameBuffer\<close> and \<open>Futaba::GetFrame\<close> belong to
  the generated header and the FlatBuffers library, which are not among the sources:
  they are parameters. \<open>size\<close> is the length of \<open>buffer\<close>.
\<close>

definition onPacketReceived ::
  "(byte list \<Rightarrow> bool) \<Rightarrow> (byte list \<Rightarrow> Frame) \<Rightarrow> byte list \<Rightarrow> byte list \<Rightarrow> Device \<Rightarrow> fault + Device" where
  "onPacketReceived VerifyFrameBuffer GetFrame deltaBuffer buffer dev =
     (if length buffer = 0 then Inr dev
      else if \<not> VerifyFrameBuffer buffer then Inr (sendStatus STATUS_ERR_VERIFY dev)
      else
        let frame = GetFrame buffer in
        case frame_data frame of
          None \<Rightarrow> Inr (sendStatus STATUS_ERR_NODATA dev)
        | Some dataVector \<Rightarrow>
            if crc32_cpp dataVector \<noteq> frame_crc32 frame then Inr (sendStatus STATUS_ERR_VERIFY dev)
            else
              (case applyFrame (frame_type frame) dataVector deltaBuffer (currentFrame dev) of
                 Inl f \<Rightarrow> Inl f
               | Inr frameState' \<Rightarrow>
                   Inr (sendStatus STATUS_OK (displayGraphicImage (dev\<lparr>currentFrame := frameState'\<rparr>)))))"

section \<open>The producer: \<open>stream.js\<close>\<close>

subsection \<open>Table-driven \<open>crc32\<close>\<close>

text \<open>
  The table is filled once at start-up:
  \<^verbatim>\<open>let c = i; for (let k = 0; k < 8; k++) c = (c & 1) ? (0xEDB88320 ^ (c >>> 1)) : (c >>> 1);\<close>
  JavaScript's bitwise operators work on the 32-bit pattern of their operands and the
  table is an \<open>Int32Array\<close>, so every value is a 32-bit word; \<open>>>>\<close> is the logical
  shift.
\<close>

function table_bits :: "nat \<Rightarrow> uint32 \<Rightarrow> uint32" where
  "table_bits k c =
     (if k < 8
      then table_bits (k + 1)
             (if c AND 1 \<noteq> 0 then 0xEDB88320 XOR drop_bit 1 c else drop_bit 1 c)
      else c)"
  by pat_completeness auto
termination
  by (relation "measure (\<lambda>(k, c). 8 - k)") auto

declare table_bits.simps [simp del]

definition CRC_TABLE :: "uint32 list" where
  "CRC_TABLE = map (\<lambda>i. table_bits 0 (word_of_nat i)) [0..<256]"

text \<open>
  \<^verbatim>\<open>crc = (crc >>> 8) ^ CRC_TABLE[(crc ^ buffer[i]) & 0xFF];\<close> starting from \<open>-1\<close>,
  and the result \<^verbatim>\<open>(crc ^ -1) >>> 0\<close>.
\<close>

function crc32_js_loop :: "byte list \<Rightarrow> nat \<Rightarrow> uint32 \<Rightarrow> uint32" where
  "crc32_js_loop buffer i crc =
     (if i < length buffer
      then crc32_js_loop buffer (i + 1)
             (drop_bit 8 crc XOR CRC_TABLE ! unat ((crc XOR ucast (buffer ! i)) AND 0xFF))
      else crc)"
  by pat_completeness auto
termination
  by (relation "measure (\<lambda>(buffer, i, crc). length buffer - i)") auto

declare crc32_js_loop.simps [simp del]

definition crc32_js :: "byte list \<Rightarrow> uint32" where
  "crc32_js buffer = crc32_js_loop buffer 0 (- 1) XOR (- 1)"

subsection \<open>\<open>packBits\<close>\<close>

text \<open>
  \<^verbatim>\<open>while (i + runLen < buffer.length && runLen < 128 && buffer[i] === buffer[i + runLen]) runLen++;\<close>
  Every index read is below \<open>buffer.length\<close> by the first conjunct.
\<close>

function runLen_loop :: "byte list \<Rightarrow> nat \<Rightarrow> nat \<Rightarrow> nat" where
  "runLen_loop buffer i runLen =
     (if i + runLen < length buffer \<and> runLen < 128 \<and> buffer ! i = buffer ! (i + runLen)
      then runLen_loop buffer i (runLen + 1) else runLen)"
  by pat_completeness auto
termination
  by (relation "measure (\<lambda>(buffer, i, runLen). 128 - runLen)") auto

declare runLen_loop.simps [simp del]

text \<open>
  The literal scan: it stops before three equal bytes (\<open>break\<close>), at 128 bytes, or at
  the end of the buffer.
\<close>

function litLen_loop :: "byte list \<Rightarrow> nat \<Rightarrow> nat \<Rightarrow> nat" where
  "litLen_loop buffer i litLen =
     (if i + litLen < length buffer \<and> litLen < 128 then
        if i + litLen + 2 < length buffer \<and>
           buffer ! (i + litLen) = buffer ! (i + litLen + 1) \<and>
           buffer ! (i + litLen) = buffer ! (i + litLen + 2)
        then litLen
        else litLen_loop buffer i (litLen + 1)
      else litLen)"
  by pat_completeness auto
termination
  by (relation "measure (\<lambda>(buffer, i, litLen). 128 - litLen)") auto

declare litLen_loop.simps [simp del]

text \<open>
  A literal segment is never empty: where the run at \<open>i\<close> has length one, the first
  step of the literal scan cannot break. The main loop advances at every iteration.
\<close>

lemma litLen_loop_ge: "litLen \<le> litLen_loop buffer i litLen"
  by (induction buffer i litLen rule: litLen_loop.induct)
     (subst litLen_loop.simps, auto)

lemma runLen_loop_ge: "runLen \<le> runLen_loop buffer i runLen"
  by (induction buffer i runLen rule: runLen_loop.induct)
     (subst runLen_loop.simps, auto)

lemma litLen_loop_pos:
  assumes "i < length buffer" "\<not> 1 < runLen_loop buffer i 1"
  shows "0 < litLen_loop buffer i 0"
proof -
  have "\<not> (i + 1 < length buffer \<and> buffer ! i = buffer ! (i + 1))"
  proof
    assume a: "i + 1 < length buffer \<and> buffer ! i = buffer ! (i + 1)"
    then have "runLen_loop buffer i 1 = runLen_loop buffer i 2"
      by (subst runLen_loop.simps) (simp add: numeral_2_eq_2)
    with runLen_loop_ge [of 2 buffer i] assms(2) show False by simp
  qed
  then have "litLen_loop buffer i 0 = litLen_loop buffer i 1"
    using assms(1) by (subst litLen_loop.simps) auto
  with litLen_loop_ge [of 1 buffer i] show ?thesis by simp
qed

text \<open>
  The main loop. \<open>result\<close> is a JavaScript array of numbers converted by
  \<^verbatim>\<open>new Uint8Array(result)\<close>, which reduces each element modulo 256: the control
  values \<open>257 - runLen\<close> and \<open>litLen - 1\<close> are bytes.
\<close>

function packBits_loop :: "byte list \<Rightarrow> nat \<Rightarrow> byte list \<Rightarrow> byte list" where
  "packBits_loop buffer i result =
     (if i < length buffer then
        let runLen = runLen_loop buffer i 1 in
        if 1 < runLen then
          packBits_loop buffer (i + runLen) (result @ [word_of_int (257 - int runLen), buffer ! i])
        else
          let litLen = litLen_loop buffer i 0 in
          packBits_loop buffer (i + litLen)
            (result @ [word_of_int (int litLen - 1)] @ map (\<lambda>k. buffer ! (i + k)) [0..<litLen])
      else result)"
  by pat_completeness auto
termination
proof (relation "measure (\<lambda>(buffer, i, result). length buffer - i)")
  show "wf (measure (\<lambda>(buffer, i, result). length buffer - i))" by simp
next
  fix buffer :: "byte list" and i :: nat and result :: "byte list" and x
  assume "i < length buffer" "x = runLen_loop buffer i 1" "1 < x"
  then show "((buffer, i + x, result @ [word_of_int (257 - int x), buffer ! i]), buffer, i, result)
      \<in> measure (\<lambda>(buffer, i, result). length buffer - i)"
    by simp
next
  fix buffer :: "byte list" and i :: nat and result :: "byte list" and x xa
  assume "i < length buffer" "x = runLen_loop buffer i 1" "\<not> 1 < x" "xa = litLen_loop buffer i 0"
  then show "((buffer, i + xa, result @ [word_of_int (int xa - 1)] @ map (\<lambda>k. buffer ! (i + k)) [0..<xa]),
        buffer, i, result) \<in> measure (\<lambda>(buffer, i, result). length buffer - i)"
    using litLen_loop_pos [of i buffer] by simp
qed

declare packBits_loop.simps [simp del]

definition packBits :: "byte list \<Rightarrow> byte list" where
  "packBits buffer = packBits_loop buffer 0 []"

subsection \<open>\<open>processFrame\<close>\<close>

text \<open>
  Indexing a \<open>Buffer\<close> past its end gives \<open>undefined\<close>, which \<open>^\<close> reads as 0.
\<close>

definition js_byte :: "byte list \<Rightarrow> nat \<Rightarrow> byte" where
  "js_byte buffer i = (if i < length buffer then buffer ! i else 0)"

text \<open>
  \<^verbatim>\<open>for (let i = 0; i < FRAME_SIZE_BYTES; i++) deltaBuffer[i] = frameBuffer[i] ^ previousFrameBuffer[i];\<close>
  with \<open>n\<close> the loop bound. The loop also sets a flag \<open>hasChanges\<close> that nothing
  reads; it is left out.
\<close>

function delta_loop :: "nat \<Rightarrow> nat \<Rightarrow> byte list \<Rightarrow> byte list \<Rightarrow> byte list \<Rightarrow> byte list" where
  "delta_loop n i frameBuffer previous deltaBuffer =
     (if i < n
      then delta_loop n (i + 1) frameBuffer previous
             (deltaBuffer[i := js_byte frameBuffer i XOR js_byte previous i])
      else deltaBuffer)"
  by pat_completeness auto
termination
  by (relation "measure (\<lambda>(n, i, frameBuffer, previous, deltaBuffer). n - i)") auto

declare delta_loop.simps [simp del]

text \<open>\<^verbatim>\<open>const deltaBuffer = Buffer.alloc(FRAME_SIZE_BYTES);\<close> is zero-filled.\<close>

definition xor_delta :: "nat \<Rightarrow> byte list \<Rightarrow> byte list \<Rightarrow> byte list" where
  "xor_delta n frameBuffer previous =
     delta_loop n 0 frameBuffer previous (replicate n 0)"






section \<open>The algorithms as the specification words them\<close>

subsection \<open>Checksum\<close>

text \<open>
  The reflected CRC-32 of IEEE 802.3: the register starts at \<open>0xFFFFFFFF\<close>; each byte
  is exclusive-ored into the low end and the register is divided eight times by the
  reflected polynomial \<open>0xEDB88320\<close> (shift right, and subtract the polynomial when a
  one falls out); the result is complemented.
\<close>

definition poly_divide :: "uint32 \<Rightarrow> uint32" where
  "poly_divide r = drop_bit 1 r XOR (if bit r 0 then 0xEDB88320 else 0)"

definition crc32_ieee :: "byte list \<Rightarrow> uint32" where
  "crc32_ieee bytes =
     NOT (fold (\<lambda>b r. (poly_divide ^^ 8) (r XOR ucast b)) bytes 0xFFFFFFFF)"

subsection \<open>Run-length decoding\<close>

text \<open>
  Control bytes are processed left to right, with \<open>room\<close> the output space left: the
  no-op control (-128) consumes no data; a non-negative control \<open>n\<close> copies \<open>n + 1\<close>
  following bytes; a negative control \<open>n\<close> repeats the single following byte \<open>1 - n\<close>
  times. Where a segment would overflow the output or needs input that is not there,
  decoding stops and what was produced so far is the result.
\<close>

fun rle_decode :: "byte list \<Rightarrow> nat \<Rightarrow> byte list" where
  "rle_decode [] room = []"
| "rle_decode (c # rest) room =
     (if room = 0 then []
      else if sint c = - 128 then rle_decode rest room
      else if 0 \<le> sint c then
        (let count = nat (sint c) + 1 in
         if room < count \<or> length rest < count then []
         else take count rest @ rle_decode (drop count rest) (room - count))
      else
        (let count = nat (1 - sint c) in
         case rest of
           [] \<Rightarrow> []
         | v # rest' \<Rightarrow>
             if room < count then [] else replicate count v @ rle_decode rest' (room - count)))"

section \<open>Concrete packets\<close>

text \<open>
  A stand-in for the structural verifier that asks for the four bytes of a root offset,
  a packet it accepts, and a device whose frame state is blank and which has sent and
  shown nothing.
\<close>

definition sample_verifier :: "byte list \<Rightarrow> bool" where
  "sample_verifier buffer = (4 \<le> length buffer)"

definition sample_packet :: "byte list" where
  "sample_packet = [0x0C, 0x00, 0x00, 0x00]"

definition blank_device :: Device where
  "blank_device = \<lparr>currentFrame = replicate 560 0, serial_tx = [], vfd_images = []\<rparr>"

section \<open>Checksum layer: both implementations compute the same checksum\<close>

lemma table_bits_eq: "table_bits k c = crc_bits k c"
proof (induction k c rule: crc_bits.induct)
  case (1 j crc)
  show ?case
  proof (cases "j < 8")
    case True
    have "table_bits j crc = table_bits (j + 1) (crc_shift crc)"
      by (subst table_bits.simps) (simp add: True crc_shift_def xor.commute)
    also have "\<dots> = crc_bits (j + 1) (crc_shift crc)"
      using "1" True by simp
    also have "\<dots> = crc_bits j crc"
      by (subst (2) crc_bits.simps) (simp add: True)
    finally show ?thesis .
  next
    case False
    then show ?thesis
      by (subst table_bits.simps, subst crc_bits.simps) simp
  qed
qed

lemma crc_shift_alt: "crc_shift x = poly_divide x"
  by (cases "odd x") (simp_all add: crc_shift_def poly_divide_def and_one_eq bit_0 mod_2_eq_odd)

lemma poly_divide_xor: "poly_divide (x XOR y) = poly_divide x XOR poly_divide y"
  unfolding poly_divide_def
  by (simp add: bit_xor_iff xor.assoc xor.left_commute)

lemma crc_bits_funpow: "crc_bits k x = (poly_divide ^^ (8 - k)) x"
proof (induction k x rule: crc_bits.induct)
  case (1 j crc)
  show ?case
  proof (cases "j < 8")
    case True
    then have "8 - j = Suc (8 - (j + 1))" by simp
    then have "(poly_divide ^^ (8 - j)) crc = (poly_divide ^^ (8 - (j + 1))) (poly_divide crc)"
      by (simp only: funpow_Suc_right o_apply)
    then show ?thesis
      using "1.IH" True by (subst crc_bits.simps) (simp add: crc_shift_alt)
  next
    case False
    then show ?thesis by (subst crc_bits.simps) simp
  qed
qed

lemma poly_divide_pow_xor:
  "(poly_divide ^^ n) (x XOR y) = (poly_divide ^^ n) x XOR (poly_divide ^^ n) y"
  by (induction n) (simp_all add: poly_divide_xor)

lemma poly_divide_pow_drop:
  "take_bit n x = 0 \<Longrightarrow> (poly_divide ^^ n) x = drop_bit n x"
proof (induction n)
  case 0
  show ?case by simp
next
  case (Suc n)
  have "take_bit n (take_bit (Suc n) x) = 0"
    using Suc.prems by simp
  then have low: "take_bit n x = 0"
    by (simp add: min_def)
  have "\<not> bit (take_bit (Suc n) x) n"
    using Suc.prems by simp
  then have "\<not> bit (drop_bit n x) 0"
    by (simp add: bit_take_bit_iff bit_drop_bit_eq)
  then have "poly_divide (drop_bit n x) = drop_bit (Suc n) x"
    by (simp add: poly_divide_def drop_bit_drop_bit)
  then show ?case
    using Suc.IH [OF low] by simp
qed

lemma and_ff: "(x::uint32) AND 0xFF = take_bit 8 x"
  by (simp add: take_bit_eq_mask mask_eq_exp_minus_1)

lemma split_low_byte: "(x::uint32) = take_bit 8 x XOR push_bit 8 (drop_bit 8 x)"
  by (rule bit_eqI) (auto simp: bit_simps)

lemma unat_low_byte: "unat (take_bit 8 (x::uint32)) < 256"
  using take_bit_nat_less_exp [of 8 "unat x"] by (simp add: unsigned_take_bit_eq)

lemma drop8_xor_byte: "drop_bit 8 ((crc::uint32) XOR ucast (b::byte)) = drop_bit 8 crc"
  by (rule bit_eqI) (auto simp: bit_simps dest: bit_imp_le_length)

lemma take8_push8: "take_bit 8 (push_bit 8 (y::uint32)) = 0"
  by (rule bit_eqI) (simp add: bit_simps)

lemma drop8_push8: "drop_bit 8 (push_bit 8 (drop_bit 8 (x::uint32))) = drop_bit 8 x"
  by (rule bit_eqI) (auto simp add: bit_simps dest: bit_imp_le_length)

lemma CRC_TABLE_nth: "CRC_TABLE ! unat (take_bit 8 (x::uint32)) = crc_bits 0 (take_bit 8 x)"
  using unat_low_byte [of x] by (simp add: CRC_TABLE_def table_bits_eq del: upt_Suc)

text \<open>
  The table look-up is the eight divisions at once: division is linear over exclusive-or,
  the high 24 bits are only shifted, and the table holds the eight divisions of the low
  byte.
\<close>

lemma crc_byte_step:
  "crc_bits 0 (crc XOR ucast (b::byte)) =
   drop_bit 8 crc XOR CRC_TABLE ! unat ((crc XOR ucast b) AND 0xFF)"
proof -
  let ?x = "crc XOR ucast b"
  have "crc_bits 0 ?x = (poly_divide ^^ 8) ?x"
    by (simp only: crc_bits_funpow diff_zero)
  also have "\<dots> = (poly_divide ^^ 8) (take_bit 8 ?x XOR push_bit 8 (drop_bit 8 ?x))"
    by (rule arg_cong [where f = "poly_divide ^^ 8", OF split_low_byte])
  also have "\<dots> =
      (poly_divide ^^ 8) (take_bit 8 ?x) XOR (poly_divide ^^ 8) (push_bit 8 (drop_bit 8 ?x))"
    by (rule poly_divide_pow_xor)
  also have "(poly_divide ^^ 8) (push_bit 8 (drop_bit 8 ?x)) = drop_bit 8 crc"
    using poly_divide_pow_drop [OF take8_push8, of "drop_bit 8 ?x"]
    by (simp only: drop8_push8 drop8_xor_byte)
  also have "(poly_divide ^^ 8) (take_bit 8 ?x) = CRC_TABLE ! unat (?x AND 0xFF)"
    by (simp only: and_ff CRC_TABLE_nth crc_bits_funpow diff_zero)
  finally show ?thesis by (simp only: xor.commute)
qed

lemma crc32_loops_agree: "crc32_js_loop buffer i crc = crc32_cpp_loop buffer i crc"
proof (induction buffer i crc rule: crc32_cpp_loop.induct)
  case (1 data i crc)
  show ?case
  proof (cases "i < length data")
    case True
    then show ?thesis
      using "1.IH" [OF True]
      by (subst crc32_js_loop.simps, subst crc32_cpp_loop.simps)
         (simp only: crc_byte_step if_True)
  next
    case False
    then show ?thesis
      by (subst crc32_js_loop.simps, subst crc32_cpp_loop.simps) simp
  qed
qed

lemma crc32_cpp_loop_fold:
  "crc32_cpp_loop data i crc = fold (\<lambda>b r. (poly_divide ^^ 8) (r XOR ucast b)) (drop i data) crc"
proof (induction data i crc rule: crc32_cpp_loop.induct)
  case (1 data i crc)
  show ?case
  proof (cases "i < length data")
    case True
    then have "drop i data = data ! i # drop (i + 1) data"
      by (simp add: Cons_nth_drop_Suc)
    then show ?thesis
      using "1.IH" [OF True] True
      by (subst crc32_cpp_loop.simps) (simp add: crc_bits_funpow)
  next
    case False
    then show ?thesis by (subst crc32_cpp_loop.simps) simp
  qed
qed

lemma minus_one_word: "(- 1 :: uint32) = 0xFFFFFFFF"
  by simp

lemma crc32_js_cpp: "crc32_js buffer = crc32_cpp buffer"
  by (simp only: crc32_js_def crc32_cpp_def crc32_loops_agree minus_one_word [symmetric]
        bit.xor_one_right)

lemma crc32_cpp_ieee: "crc32_cpp buffer = crc32_ieee buffer"
  by (simp add: crc32_cpp_def crc32_ieee_def crc32_cpp_loop_fold)

text \<open>The check value of CRC-32: the ASCII digits \<open>123456789\<close> give \<open>0xCBF43926\<close>.\<close>

lemma crc32_cpp_check_value:
  "crc32_cpp [0x31, 0x32, 0x33, 0x34, 0x35, 0x36, 0x37, 0x38, 0x39] = 0xCBF43926"
  by code_simp

text \<open>
  C4. The producer's table-driven \<open>crc32\<close> and the consumer's bitwise \<open>crc32\<close> return
  the same 32-bit value on every byte sequence, and that value is the IEEE 802.3 CRC-32:
  reflected polynomial \<open>0xEDB88320\<close>, register started at \<open>0xFFFFFFFF\<close> and
  complemented at the end.
\<close>

theorem crc32_producer_consumer_agree:
  "crc32_js buffer = crc32_cpp buffer \<and> crc32_cpp buffer = crc32_ieee buffer"
  by (simp only: crc32_js_cpp crc32_cpp_ieee)

section \<open>Run-length codec\<close>

subsection \<open>The specified decoding stays within the bound\<close>

lemma rle_decode_length: "length (rle_decode xs room) \<le> room"
proof (induction xs room rule: rle_decode.induct)
  case (1 room)
  show ?case by simp
next
  case (2 c rest room)
  show ?case
  proof (cases "room = 0 \<or> sint c = - 128")
    case True
    then show ?thesis using 2 by auto
  next
    case False
    note nz = False
    show ?thesis
    proof (cases "0 \<le> sint c")
      case True
      show ?thesis
      proof (cases "room < nat (sint c) + 1 \<or> length rest < nat (sint c) + 1")
        case True
        then show ?thesis using nz \<open>0 \<le> sint c\<close> by (auto simp: Let_def)
      next
        case False
        then have "length (rle_decode (drop (nat (sint c) + 1) rest) (room - (nat (sint c) + 1)))
            \<le> room - (nat (sint c) + 1)"
          using nz "2.IH"(2) [OF _ _ True refl] by simp
        then have "nat (sint c) + 1 +
            length (rle_decode (drop (nat (sint c) + 1) rest) (room - (nat (sint c) + 1))) \<le> room"
          using False by linarith
        then show ?thesis using nz \<open>0 \<le> sint c\<close> False by (simp add: Let_def)
      qed
    next
      case False
      show ?thesis
      proof (cases rest)
        case Nil
        then show ?thesis using nz False by (simp add: Let_def)
      next
        case (Cons v rest')
        show ?thesis
        proof (cases "room < nat (1 - sint c)")
          case True
          then show ?thesis using nz False Cons by (simp add: Let_def)
        next
          case fits: False
          have "length (rle_decode rest' (room - nat (1 - sint c))) \<le> room - nat (1 - sint c)"
            using nz "2.IH"(3) [OF _ _ False refl Cons fits] by simp
          then have "nat (1 - sint c) + length (rle_decode rest' (room - nat (1 - sint c))) \<le> room"
            using fits by linarith
          then show ?thesis using nz False Cons fits by (simp add: Let_def)
        qed
      qed
    qed
  qed
qed

subsection \<open>The loop of \<open>unpackBits\<close>, one branch at a time\<close>

lemma sint_byte_range: "- 128 \<le> sint (b::byte)" "sint (b::byte) \<le> 127"
  using sint_ge [of b] sint_lt [of b] by simp_all

lemma unat_byte_of_int: "0 \<le> k \<Longrightarrow> k < 256 \<Longrightarrow> unat (word_of_int k :: byte) = nat k"
  by (simp add: unat_eq_nat_uint uint_word_of_int)

lemma count_literal: "0 \<le> sint (b::byte) \<Longrightarrow> unat (b + 1) = nat (sint b) + 1"
  using sint_byte_range [of b] unat_byte_of_int [of "sint b + 1"] by (simp add: nat_add_distrib)

lemma count_repeat:
  "\<not> 0 \<le> sint (b::byte) \<Longrightarrow> unat (1 - b) = nat (1 - sint b)"
  using sint_byte_range [of b] unat_byte_of_int [of "1 - sint b"] by simp

lemma unpackBits_loop_stop:
  "\<not> (i < inputLen \<and> j < maxOutputLen) \<Longrightarrow>
   unpackBits_loop input inputLen maxOutputLen i j output = Inr (j, output)"
  by (subst unpackBits_loop.simps) (simp only: if_False)

lemma unpackBits_loop_noop:
  "i < inputLen \<Longrightarrow> j < maxOutputLen \<Longrightarrow> sint (input ! i) = - 128 \<Longrightarrow>
   unpackBits_loop input inputLen maxOutputLen i j output =
   unpackBits_loop input inputLen maxOutputLen (i + 1) j output"
  by (subst unpackBits_loop.simps) (simp add: read_u8_def)

lemma unpackBits_loop_literal_break:
  "i < inputLen \<Longrightarrow> j < maxOutputLen \<Longrightarrow> 0 \<le> sint (input ! i) \<Longrightarrow>
   maxOutputLen < j + (nat (sint (input ! i)) + 1) \<or> inputLen < i + 1 + (nat (sint (input ! i)) + 1) \<Longrightarrow>
   unpackBits_loop input inputLen maxOutputLen i j output = Inr (j, output)"
  by (subst unpackBits_loop.simps) (auto simp add: read_u8_def count_literal Let_def)

lemma unpackBits_loop_literal:
  "i < inputLen \<Longrightarrow> j < maxOutputLen \<Longrightarrow> 0 \<le> sint (input ! i) \<Longrightarrow>
   count = nat (sint (input ! i)) + 1 \<Longrightarrow>
   j + count \<le> maxOutputLen \<Longrightarrow> i + 1 + count \<le> inputLen \<Longrightarrow>
   unpackBits_loop input inputLen maxOutputLen i j output =
   unpackBits_loop input inputLen maxOutputLen (i + 1 + count) (j + count)
     (take j output @ take count (drop (i + 1) input) @ drop (j + count) output)"
  by (subst unpackBits_loop.simps) (simp add: read_u8_def count_literal Let_def memcpy_def)

lemma unpackBits_loop_repeat_break:
  "i < inputLen \<Longrightarrow> j < maxOutputLen \<Longrightarrow> \<not> 0 \<le> sint (input ! i) \<Longrightarrow>
   sint (input ! i) \<noteq> - 128 \<Longrightarrow>
   maxOutputLen < j + nat (1 - sint (input ! i)) \<or> inputLen \<le> i + 1 \<Longrightarrow>
   unpackBits_loop input inputLen maxOutputLen i j output = Inr (j, output)"
  by (subst unpackBits_loop.simps) (auto simp add: read_u8_def count_repeat Let_def)

lemma unpackBits_loop_repeat:
  "i < inputLen \<Longrightarrow> j < maxOutputLen \<Longrightarrow> \<not> 0 \<le> sint (input ! i) \<Longrightarrow>
   sint (input ! i) \<noteq> - 128 \<Longrightarrow> count = nat (1 - sint (input ! i)) \<Longrightarrow>
   j + count \<le> maxOutputLen \<Longrightarrow> i + 1 < inputLen \<Longrightarrow>
   unpackBits_loop input inputLen maxOutputLen i j output =
   unpackBits_loop input inputLen maxOutputLen (i + 2) (j + count)
     (take j output @ replicate count (input ! (i + 1)) @ drop (j + count) output)"
  by (subst unpackBits_loop.simps) (simp add: read_u8_def count_repeat Let_def memset_def)

subsection \<open>Memory safety of \<open>unpackBits\<close>\<close>

lemma unpackBits_loop_safe:
  "j \<le> maxOutputLen \<Longrightarrow>
   \<exists>j' output'. unpackBits_loop input inputLen maxOutputLen i j output = Inr (j', output') \<and>
     j' \<le> maxOutputLen"
proof (induction "inputLen - i" arbitrary: i j "output" rule: less_induct)
  case less
  show ?case
  proof (cases "i < inputLen \<and> j < maxOutputLen")
    case False
    then show ?thesis using less.prems by (simp add: unpackBits_loop_stop)
  next
    case True
    then have i: "i < inputLen" and j: "j < maxOutputLen" by simp_all
    let ?n = "sint (input ! i)"
    consider (noop) "?n = - 128"
      | (lit_break) "0 \<le> ?n" "maxOutputLen < j + (nat ?n + 1) \<or> inputLen < i + 1 + (nat ?n + 1)"
      | (lit) "0 \<le> ?n" "j + (nat ?n + 1) \<le> maxOutputLen" "i + 1 + (nat ?n + 1) \<le> inputLen"
      | (rep_break) "\<not> 0 \<le> ?n" "?n \<noteq> - 128" "maxOutputLen < j + nat (1 - ?n) \<or> inputLen \<le> i + 1"
      | (rep) "\<not> 0 \<le> ?n" "?n \<noteq> - 128" "j + nat (1 - ?n) \<le> maxOutputLen" "i + 1 < inputLen"
      by linarith
    then show ?thesis
    proof cases
      case noop
      have "inputLen - (i + 1) < inputLen - i" using i by simp
      from less.hyps [OF this less.prems] show ?thesis
        by (simp only: unpackBits_loop_noop [OF i j noop])
    next
      case lit_break
      then show ?thesis using less.prems
        by (simp add: unpackBits_loop_literal_break [OF i j])
    next
      case lit
      have "inputLen - (i + 1 + (nat ?n + 1)) < inputLen - i" using i by simp
      from less.hyps [OF this lit(2)] show ?thesis
        by (simp only: unpackBits_loop_literal [OF i j lit(1) refl lit(2) lit(3)])
    next
      case rep_break
      then show ?thesis using less.prems
        by (simp add: unpackBits_loop_repeat_break [OF i j])
    next
      case rep
      have "inputLen - (i + 2) < inputLen - i" using i by simp
      from less.hyps [OF this rep(3)] show ?thesis
        by (simp only: unpackBits_loop_repeat [OF i j rep(1) rep(2) refl rep(3) rep(4)])
    qed
  qed
qed

subsection \<open>\<open>unpackBits\<close> computes the specified decoding\<close>

lemma rle_decode_full: "rle_decode xs 0 = []"
  by (cases xs) simp_all

lemma rle_decode_noop:
  "room \<noteq> 0 \<Longrightarrow> sint c = - 128 \<Longrightarrow> rle_decode (c # rest) room = rle_decode rest room"
  by simp

lemma rle_decode_literal:
  "room \<noteq> 0 \<Longrightarrow> 0 \<le> sint c \<Longrightarrow> count = nat (sint c) + 1 \<Longrightarrow>
   count \<le> room \<Longrightarrow> count \<le> length rest \<Longrightarrow>
   rle_decode (c # rest) room = take count rest @ rle_decode (drop count rest) (room - count)"
  by (simp add: Let_def)

lemma rle_decode_literal_break:
  "0 \<le> sint c \<Longrightarrow> room < nat (sint c) + 1 \<or> length rest < nat (sint c) + 1 \<Longrightarrow>
   rle_decode (c # rest) room = []"
  by (auto simp add: Let_def)

lemma rle_decode_repeat:
  "room \<noteq> 0 \<Longrightarrow> \<not> 0 \<le> sint c \<Longrightarrow> sint c \<noteq> - 128 \<Longrightarrow> count = nat (1 - sint c) \<Longrightarrow>
   count \<le> room \<Longrightarrow>
   rle_decode (c # v # rest) room = replicate count v @ rle_decode rest (room - count)"
  by (simp add: Let_def)

lemma rle_decode_repeat_break:
  "\<not> 0 \<le> sint c \<Longrightarrow> sint c \<noteq> - 128 \<Longrightarrow> room < nat (1 - sint c) \<or> rest = [] \<Longrightarrow>
   rle_decode (c # rest) room = []"
  by (auto simp add: Let_def split: list.splits)

declare rle_decode.simps(2) [simp del]

lemma splice_length:
  "j + n \<le> length out \<Longrightarrow> length seg = n \<Longrightarrow>
   length (take j out @ seg @ drop (j + n) out) = length out"
  by simp

lemma splice_take:
  "j + n \<le> length out \<Longrightarrow> length seg = n \<Longrightarrow>
   take (j + n) (take j out @ seg @ drop (j + n) out) = take j out @ seg"
  by simp

lemma splice_drop:
  "j + n \<le> length out \<Longrightarrow> length seg = n \<Longrightarrow>
   drop (j + n + k) (take j out @ seg @ drop (j + n) out) = drop (j + n + k) out"
  by (simp add: add.commute add.left_commute)

lemma splice_result:
  "length seg = n \<Longrightarrow>
   (Inr (j + n + length d', (take j out @ seg) @ d' @ drop (j + n + length d') out)
      :: fault + nat \<times> byte list) =
   Inr (j + length (seg @ d'), take j out @ (seg @ d') @ drop (j + length (seg @ d')) out)"
  by (simp add: add.assoc)

lemma unpackBits_loop_decode:
  "i \<le> length input \<Longrightarrow> j \<le> maxOutputLen \<Longrightarrow> maxOutputLen \<le> length output \<Longrightarrow>
   d = rle_decode (drop i input) (maxOutputLen - j) \<Longrightarrow>
   unpackBits_loop input (length input) maxOutputLen i j output =
     Inr (j + length d, take j output @ d @ drop (j + length d) output)"
proof (induction "length input - i" arbitrary: i j "output" d rule: less_induct)
  case less
  note d = less.prems(4)
  show ?case
  proof (cases "i < length input \<and> j < maxOutputLen")
    case False
    then have "d = []"
      using less.prems by (auto simp: rle_decode_full)
    then show ?thesis using False by (simp add: unpackBits_loop_stop)
  next
    case True
    then have i: "i < length input" and j: "j < maxOutputLen" by simp_all
    let ?n = "sint (input ! i)"
    let ?rest = "drop (i + 1) input"
    have split: "drop i input = input ! i # ?rest"
      using i by (simp add: Cons_nth_drop_Suc)
    have room: "maxOutputLen - j \<noteq> 0" using j by simp
    have len_rest: "length ?rest = length input - (i + 1)" by simp
    consider (noop) "?n = - 128"
      | (lit_break) "0 \<le> ?n" "maxOutputLen < j + (nat ?n + 1) \<or> length input < i + 1 + (nat ?n + 1)"
      | (lit) "0 \<le> ?n" "j + (nat ?n + 1) \<le> maxOutputLen" "i + 1 + (nat ?n + 1) \<le> length input"
      | (rep_break) "\<not> 0 \<le> ?n" "?n \<noteq> - 128" "maxOutputLen < j + nat (1 - ?n) \<or> length input \<le> i + 1"
      | (rep) "\<not> 0 \<le> ?n" "?n \<noteq> - 128" "j + nat (1 - ?n) \<le> maxOutputLen" "i + 1 < length input"
      by linarith
    then show ?thesis
    proof cases
      case noop
      have dd: "d = rle_decode ?rest (maxOutputLen - j)"
        unfolding d split by (rule rle_decode_noop [OF room noop])
      have i1: "i + 1 \<le> length input" using i by simp
      have m: "length input - (i + 1) < length input - i" using i by simp
      show ?thesis
        unfolding unpackBits_loop_noop [OF i j noop]
        by (rule less.hyps [OF m i1 less.prems(2) less.prems(3) dd])
    next
      case lit_break
      have "d = []"
        unfolding d split using lit_break(2) len_rest
        by (intro rle_decode_literal_break [OF lit_break(1)]) linarith
      then show ?thesis
        using lit_break by (simp add: unpackBits_loop_literal_break [OF i j])
    next
      case lit
      let ?count = "nat ?n + 1"
      let ?seg = "take ?count ?rest"
      let ?out = "take j output @ ?seg @ drop (j + ?count) output"
      let ?d' = "rle_decode (drop (i + 1 + ?count) input) (maxOutputLen - (j + ?count))"
      have seg: "length ?seg = ?count" using lit(3) by simp
      have f1: "?count \<le> maxOutputLen - j"
        using lit(2) by linarith
      have f2: "?count \<le> length ?rest"
        unfolding len_rest using lit(3) by linarith
      have e: "rle_decode (input ! i # ?rest) (maxOutputLen - j) =
          ?seg @ rle_decode (drop ?count ?rest) (maxOutputLen - j - ?count)"
        by (rule rle_decode_literal [OF room lit(1) refl f1 f2])
      have dd': "drop ?count ?rest = drop (i + 1 + ?count) input"
        by (simp add: add.commute)
      have dd: "d = ?seg @ ?d'"
        unfolding d split e dd' diff_diff_left ..
      have fit: "j + ?count \<le> length output"
        using lit(2) less.prems(3) by linarith
      have out_len: "length ?out = length output"
        using fit seg by (rule splice_length)
      have out_fit: "maxOutputLen \<le> length ?out"
        using out_len less.prems(3) by simp
      have m: "length input - (i + 1 + ?count) < length input - i" using i by simp
      have step: "unpackBits_loop input (length input) maxOutputLen i j output =
          unpackBits_loop input (length input) maxOutputLen (i + 1 + ?count) (j + ?count) ?out"
        by (rule unpackBits_loop_literal [OF i j lit(1) refl lit(2) lit(3)])
      have rec: "unpackBits_loop input (length input) maxOutputLen (i + 1 + ?count) (j + ?count) ?out =
          Inr (j + ?count + length ?d', take (j + ?count) ?out @ ?d' @ drop (j + ?count + length ?d') ?out)"
        by (rule less.hyps [OF m lit(3) lit(2) out_fit refl])
      have t: "take (j + ?count) ?out = take j output @ ?seg"
        using fit seg by (rule splice_take)
      have dr: "drop (j + ?count + length ?d') ?out = drop (j + ?count + length ?d') output"
        using fit seg by (rule splice_drop)
      show ?thesis
        unfolding step rec t dr dd by (rule splice_result [OF seg])
    next
      case rep_break
      have brk: "maxOutputLen - j < nat (1 - ?n) \<or> ?rest = []"
        using rep_break(3)
      proof
        assume "maxOutputLen < j + nat (1 - ?n)"
        then have "maxOutputLen - j < nat (1 - ?n)" using j by linarith
        then show ?thesis ..
      next
        assume "length input \<le> i + 1"
        then have "?rest = []" by simp
        then show ?thesis ..
      qed
      have "d = []"
        unfolding d split
        by (rule rle_decode_repeat_break [OF rep_break(1) rep_break(2) brk])
      then show ?thesis
        using rep_break by (simp add: unpackBits_loop_repeat_break [OF i j])
    next
      case rep
      let ?count = "nat (1 - ?n)"
      let ?seg = "replicate ?count (input ! (i + 1))"
      let ?out = "take j output @ ?seg @ drop (j + ?count) output"
      let ?d' = "rle_decode (drop (i + 2) input) (maxOutputLen - (j + ?count))"
      have seg: "length ?seg = ?count" by simp
      have split2: "?rest = input ! (i + 1) # drop (i + 2) input"
        using rep(4) Cons_nth_drop_Suc [of "i + 1" input] by simp
      have f1: "?count \<le> maxOutputLen - j"
        using rep(3) by linarith
      have e: "rle_decode (input ! i # input ! (i + 1) # drop (i + 2) input) (maxOutputLen - j) =
          ?seg @ rle_decode (drop (i + 2) input) (maxOutputLen - j - ?count)"
        by (rule rle_decode_repeat [OF room rep(1) rep(2) refl f1])
      have dd: "d = ?seg @ ?d'"
        unfolding d split split2 e diff_diff_left ..
      have fit: "j + ?count \<le> length output"
        using rep(3) less.prems(3) by linarith
      have out_len: "length ?out = length output"
        using fit seg by (rule splice_length)
      have out_fit: "maxOutputLen \<le> length ?out"
        using out_len less.prems(3) by simp
      have m: "length input - (i + 2) < length input - i" using i by simp
      have i2: "i + 2 \<le> length input" using rep(4) by simp
      have step: "unpackBits_loop input (length input) maxOutputLen i j output =
          unpackBits_loop input (length input) maxOutputLen (i + 2) (j + ?count) ?out"
        by (rule unpackBits_loop_repeat [OF i j rep(1) rep(2) refl rep(3) rep(4)])
      have rec: "unpackBits_loop input (length input) maxOutputLen (i + 2) (j + ?count) ?out =
          Inr (j + ?count + length ?d', take (j + ?count) ?out @ ?d' @ drop (j + ?count + length ?d') ?out)"
        by (rule less.hyps [OF m i2 rep(3) out_fit refl])
      have t: "take (j + ?count) ?out = take j output @ ?seg"
        using fit seg by (rule splice_take)
      have dr: "drop (j + ?count + length ?d') ?out = drop (j + ?count + length ?d') output"
        using fit seg by (rule splice_drop)
      show ?thesis
        unfolding step rec t dr dd by (rule splice_result [OF seg])
    qed
  qed
qed

subsection \<open>Invariants of the encoder's scans\<close>

lemma runLen_loop_inv:
  "runLen \<le> 128 \<Longrightarrow> i + runLen \<le> length buffer \<Longrightarrow>
   (\<forall>k < runLen. buffer ! (i + k) = buffer ! i) \<Longrightarrow>
   runLen_loop buffer i runLen \<le> 128 \<and> i + runLen_loop buffer i runLen \<le> length buffer \<and>
   (\<forall>k < runLen_loop buffer i runLen. buffer ! (i + k) = buffer ! i)"
proof (induction buffer i runLen rule: runLen_loop.induct)
  case (1 buffer i runLen)
  show ?case
  proof (cases "i + runLen < length buffer \<and> runLen < 128 \<and> buffer ! i = buffer ! (i + runLen)")
    case True
    have unfold: "runLen_loop buffer i runLen = runLen_loop buffer i (runLen + 1)"
      using runLen_loop.simps [of buffer i runLen] unfolding if_P [OF True] .
    have "buffer ! (i + k) = buffer ! i" if "k < runLen + 1" for k
    proof (cases "k < runLen")
      case True
      then show ?thesis using "1.prems"(3) by blast
    next
      case False
      then have "k = runLen" using that by linarith
      then show ?thesis using True by metis
    qed
    then have all: "\<forall>k < runLen + 1. buffer ! (i + k) = buffer ! i"
      by blast
    have b1: "runLen + 1 \<le> 128" and b2: "i + (runLen + 1) \<le> length buffer"
      using True by linarith+
    show ?thesis
      unfolding unfold by (rule "1.IH" [OF True b1 b2 all])
  next
    case False
    have unfold: "runLen_loop buffer i runLen = runLen"
      using runLen_loop.simps [of buffer i runLen] unfolding if_not_P [OF False] .
    show ?thesis
      unfolding unfold using "1.prems" by blast
  qed
qed

lemma runLen_loop_run:
  assumes "i < length buffer" and "r = runLen_loop buffer i 1"
  shows "1 \<le> r" "r \<le> 128" "i + r \<le> length buffer" "take r (drop i buffer) = replicate r (buffer ! i)"
proof -
  have inv: "r \<le> 128 \<and> i + r \<le> length buffer \<and> (\<forall>k < r. buffer ! (i + k) = buffer ! i)"
    unfolding assms(2) using assms(1) by (intro runLen_loop_inv) auto
  show "1 \<le> r" unfolding assms(2) by (rule runLen_loop_ge)
  show "r \<le> 128" "i + r \<le> length buffer" using inv by simp_all
  have le: "i + r \<le> length buffer" using inv by blast
  show "take r (drop i buffer) = replicate r (buffer ! i)"
  proof (rule nth_equalityI)
    show "length (take r (drop i buffer)) = length (replicate r (buffer ! i))"
      using le by simp
  next
    fix k
    assume "k < length (take r (drop i buffer))"
    then have k: "k < r" by simp
    then have "buffer ! (i + k) = buffer ! i" using inv by blast
    then show "take r (drop i buffer) ! k = replicate r (buffer ! i) ! k"
      using k le by simp
  qed
qed

lemma litLen_loop_inv:
  "litLen \<le> 128 \<Longrightarrow> i + litLen \<le> length buffer \<Longrightarrow>
   litLen_loop buffer i litLen \<le> 128 \<and> i + litLen_loop buffer i litLen \<le> length buffer"
proof (induction buffer i litLen rule: litLen_loop.induct)
  case (1 buffer i litLen)
  show ?case
  proof (cases "i + litLen < length buffer \<and> litLen < 128")
    case True
    note loop = True
    show ?thesis
    proof (cases "i + litLen + 2 < length buffer \<and>
           buffer ! (i + litLen) = buffer ! (i + litLen + 1) \<and>
           buffer ! (i + litLen) = buffer ! (i + litLen + 2)")
      case True
      have "litLen_loop buffer i litLen = litLen"
        using litLen_loop.simps [of buffer i litLen] unfolding if_P [OF loop] if_P [OF True] .
      then show ?thesis
        using "1.prems" by simp
    next
      case False
      have "litLen_loop buffer i litLen = litLen_loop buffer i (litLen + 1)"
        using litLen_loop.simps [of buffer i litLen] unfolding if_P [OF loop] if_not_P [OF False] .
      moreover have "litLen + 1 \<le> 128" "i + (litLen + 1) \<le> length buffer"
        using loop by simp_all
      ultimately show ?thesis
        using "1.IH" [OF loop False] by simp
    qed
  next
    case False
    have "litLen_loop buffer i litLen = litLen"
      using litLen_loop.simps [of buffer i litLen] unfolding if_not_P [OF False] .
    then show ?thesis
      using "1.prems" by simp
  qed
qed

lemma litLen_loop_lit:
  assumes "i < length buffer" and "\<not> 1 < runLen_loop buffer i 1" and "l = litLen_loop buffer i 0"
  shows "1 \<le> l" "l \<le> 128" "i + l \<le> length buffer"
    "map (\<lambda>k. buffer ! (i + k)) [0..<l] = take l (drop i buffer)"
proof -
  show "1 \<le> l" unfolding assms(3) using litLen_loop_pos [OF assms(1) assms(2)] by simp
  have inv: "l \<le> 128 \<and> i + l \<le> length buffer"
    unfolding assms(3) using assms(1) by (intro litLen_loop_inv) auto
  then show "l \<le> 128" "i + l \<le> length buffer" by simp_all
  have le: "i + l \<le> length buffer" using inv by blast
  show "map (\<lambda>k. buffer ! (i + k)) [0..<l] = take l (drop i buffer)"
  proof (rule nth_equalityI)
    show "length (map (\<lambda>k. buffer ! (i + k)) [0..<l]) = length (take l (drop i buffer))"
      using le by simp
  next
    fix k
    assume "k < length (map (\<lambda>k. buffer ! (i + k)) [0..<l])"
    then have k: "k < l" by simp
    then show "map (\<lambda>k. buffer ! (i + k)) [0..<l] ! k = take l (drop i buffer) ! k"
      using le by simp
  qed
qed

lemma packBits_loop_done:
  "\<not> i < length buffer \<Longrightarrow> packBits_loop buffer i result = result"
  by (subst packBits_loop.simps) simp

lemma packBits_loop_run:
  "i < length buffer \<Longrightarrow> r = runLen_loop buffer i 1 \<Longrightarrow> 1 < r \<Longrightarrow>
   packBits_loop buffer i result =
   packBits_loop buffer (i + r) (result @ [word_of_int (257 - int r), buffer ! i])"
  by (subst packBits_loop.simps) (simp add: Let_def)

lemma packBits_loop_lit:
  "i < length buffer \<Longrightarrow> \<not> 1 < runLen_loop buffer i 1 \<Longrightarrow> l = litLen_loop buffer i 0 \<Longrightarrow>
   packBits_loop buffer i result =
   packBits_loop buffer (i + l)
     (result @ [word_of_int (int l - 1)] @ map (\<lambda>k. buffer ! (i + k)) [0..<l])"
  by (subst packBits_loop.simps) (simp add: Let_def)

lemma packBits_loop_acc:
  "packBits_loop buffer i result = result @ packBits_loop buffer i []"
proof (induction "length buffer - i" arbitrary: i result rule: less_induct)
  case less
  show ?case
  proof (cases "i < length buffer")
    case False
    then show ?thesis by (simp add: packBits_loop_done)
  next
    case True
    note i = True
    show ?thesis
    proof (cases "1 < runLen_loop buffer i 1")
      case True
      let ?r = "runLen_loop buffer i 1"
      have m: "length buffer - (i + ?r) < length buffer - i"
        using i True by simp
      show ?thesis
        unfolding packBits_loop_run [OF i refl True]
        by (subst less.hyps [OF m], subst (2) less.hyps [OF m]) simp
    next
      case False
      let ?l = "litLen_loop buffer i 0"
      have m: "length buffer - (i + ?l) < length buffer - i"
        using i litLen_loop_pos [OF i False] by simp
      show ?thesis
        unfolding packBits_loop_lit [OF i False refl]
        by (subst less.hyps [OF m], subst (2) less.hyps [OF m]) simp
    qed
  qed
qed

subsection \<open>Round trip\<close>

lemma sint_byte_of_int: "- 128 \<le> k \<Longrightarrow> k < 128 \<Longrightarrow> sint (word_of_int k :: byte) = k"
  by (simp add: sint_sbintrunc' signed_take_bit_int_eq_self)

lemma run_control_mod: "(word_of_int (257 - int r) :: byte) = word_of_int (1 - int r)"
proof -
  have "(257 - int r) = (1 - int r) + 256" by simp
  then have "(word_of_int (257 - int r) :: byte) = word_of_int (1 - int r) + word_of_int 256"
    by (simp only: word_of_int_hom_syms)
  then show ?thesis by simp
qed

lemma sint_run_control:
  "2 \<le> r \<Longrightarrow> r \<le> 128 \<Longrightarrow> sint (word_of_int (257 - int r) :: byte) = 1 - int r"
  unfolding run_control_mod by (rule sint_byte_of_int) simp_all

lemma sint_lit_control:
  "1 \<le> l \<Longrightarrow> l \<le> 128 \<Longrightarrow> sint (word_of_int (int l - 1) :: byte) = int l - 1"
  by (rule sint_byte_of_int) simp_all

lemma take_drop_tail: "take n (drop i xs) @ drop (i + n) xs = drop i xs"
proof -
  have "drop (i + n) xs = drop n (drop i xs)" by (simp add: add.commute)
  then show ?thesis by (simp only: append_take_drop_id)
qed

lemma rle_decode_packBits_loop:
  "i \<le> length buffer \<Longrightarrow> length buffer - i \<le> room \<Longrightarrow>
   rle_decode (packBits_loop buffer i []) room = drop i buffer"
proof (induction "length buffer - i" arbitrary: i room rule: less_induct)
  case less
  show ?case
  proof (cases "i < length buffer")
    case False
    then show ?thesis using less.prems by (simp add: packBits_loop_done)
  next
    case True
    note i = True
    then have room: "room \<noteq> 0" using less.prems(2) by simp
    show ?thesis
    proof (cases "1 < runLen_loop buffer i 1")
      case True
      let ?r = "runLen_loop buffer i 1"
      let ?c = "word_of_int (257 - int ?r) :: byte"
      note run = runLen_loop_run [OF i refl]
      have n: "sint ?c = 1 - int ?r"
        using True run(2) by (intro sint_run_control) simp_all
      have neg: "\<not> 0 \<le> sint ?c" and nn: "sint ?c \<noteq> - 128"
        using n True run(2) by simp_all
      have count: "?r = nat (1 - sint ?c)" using n by simp
      have fit: "?r \<le> room" using run(3) less.prems(2) by linarith
      have m: "length buffer - (i + ?r) < length buffer - i"
        using i True by simp
      have room': "length buffer - (i + ?r) \<le> room - ?r"
        using less.prems(2) by linarith
      have "packBits_loop buffer i [] = ?c # buffer ! i # packBits_loop buffer (i + ?r) []"
        unfolding packBits_loop_run [OF i refl True]
        by (subst packBits_loop_acc) simp
      then have "rle_decode (packBits_loop buffer i []) room =
          replicate ?r (buffer ! i) @ rle_decode (packBits_loop buffer (i + ?r) []) (room - ?r)"
        using rle_decode_repeat [OF room neg nn count fit] by simp
      also have "\<dots> = take ?r (drop i buffer) @ drop (i + ?r) buffer"
        unfolding less.hyps [OF m run(3) room'] run(4) ..
      also have "\<dots> = drop i buffer"
        by (rule take_drop_tail)
      finally show ?thesis .
    next
      case False
      let ?l = "litLen_loop buffer i 0"
      let ?c = "word_of_int (int ?l - 1) :: byte"
      let ?seg = "take ?l (drop i buffer)"
      note lit = litLen_loop_lit [OF i False refl]
      have n: "sint ?c = int ?l - 1"
        using lit(1) lit(2) by (rule sint_lit_control)
      have pos: "0 \<le> sint ?c" using n lit(1) by simp
      have count: "?l = nat (sint ?c) + 1" using n lit(1) by simp
      have fit: "?l \<le> room" using lit(3) less.prems(2) by linarith
      have m: "length buffer - (i + ?l) < length buffer - i"
        using i lit(1) by simp
      have room': "length buffer - (i + ?l) \<le> room - ?l"
        using less.prems(2) by linarith
      have seg: "length ?seg = ?l" using lit(3) by simp
      have fit2: "?l \<le> length (?seg @ packBits_loop buffer (i + ?l) [])"
        using seg by simp
      have "packBits_loop buffer i [] = ?c # ?seg @ packBits_loop buffer (i + ?l) []"
        unfolding packBits_loop_lit [OF i False refl] lit(4)
        by (subst packBits_loop_acc) simp
      then have "rle_decode (packBits_loop buffer i []) room =
          take ?l (?seg @ packBits_loop buffer (i + ?l) []) @
          rle_decode (drop ?l (?seg @ packBits_loop buffer (i + ?l) [])) (room - ?l)"
        using rle_decode_literal [OF room pos count fit fit2] by simp
      also have "\<dots> = ?seg @ rle_decode (packBits_loop buffer (i + ?l) []) (room - ?l)"
        using seg by simp
      also have "\<dots> = ?seg @ drop (i + ?l) buffer"
        unfolding less.hyps [OF m lit(3) room'] ..
      also have "\<dots> = drop i buffer"
        by (rule take_drop_tail)
      finally show ?thesis .
    qed
  qed
qed

lemma rle_decode_packBits: "rle_decode (packBits buffer) (length buffer) = buffer"
  using rle_decode_packBits_loop [of 0 buffer "length buffer"] by (simp add: packBits_def)

lemma unpackBits_packBits:
  assumes "length output = length buffer"
  shows "unpackBits (packBits buffer) (length (packBits buffer)) output (length buffer) =
         Inr (length buffer, buffer)"
  using unpackBits_loop_decode [of 0 "packBits buffer" 0 "length buffer" "output" buffer] assms
  by (simp add: unpackBits_def rle_decode_packBits)

lemma unpackBits_decode:
  "maxOutputLen \<le> length output \<Longrightarrow>
   unpackBits input (length input) output maxOutputLen =
     Inr (length (rle_decode input maxOutputLen),
          rle_decode input maxOutputLen @ drop (length (rle_decode input maxOutputLen)) output)"
  using unpackBits_loop_decode [of 0 input 0 maxOutputLen "output" "rle_decode input maxOutputLen"]
  by (simp add: unpackBits_def)

lemma unpackBits_total:
  "\<exists>j output'. unpackBits input inputLen output maxOutputLen = Inr (j, output') \<and> j \<le> maxOutputLen"
  unfolding unpackBits_def by (rule unpackBits_loop_safe) simp

text \<open>
  An example by hand: three sevens are a repeat segment (control \<open>257 - 3 = 254\<close>), the
  two bytes after them a literal segment (control \<open>2 - 1 = 1\<close>).
\<close>

lemma packBits_example: "packBits [7, 7, 7, 1, 2] = [254, 7, 1, 1, 2]"
  by code_simp

text \<open>
  C1. Round trip of the run-length codec: for every byte buffer \<open>B\<close>, decoding
  \<open>packBits B\<close> with an output bound equal to the length of \<open>B\<close> reproduces exactly
  \<open>B\<close> and returns the length of \<open>B\<close>. This holds for the decoder as the specification
  words it and for \<open>unpackBits\<close> writing into any output array of that size.
\<close>

theorem packBits_unpackBits_roundtrip:
  "rle_decode (packBits B) (length B) = B \<and>
   (length output = length B \<longrightarrow>
      unpackBits (packBits B) (length (packBits B)) output (length B) = Inr (length B, B))"
  by (simp add: rle_decode_packBits unpackBits_packBits)

theorem packBits_unpackBits_roundtrip_witness:
  "length (replicate 5 (0::byte)) = length [7, 7, 7, 1, 2 :: byte] \<and>
   unpackBits [254, 7, 1, 1, 2] 5 (replicate 5 0) 5 = Inr (5, [7, 7, 7, 1, 2])"
  using packBits_unpackBits_roundtrip [of "[7, 7, 7, 1, 2]" "replicate 5 0"] packBits_example
  by (simp add: eval_nat_numeral)

text \<open>
  C3. Decode truncation safety: for every input byte sequence, well formed or not, and
  every output bound, \<open>unpackBits\<close> reads no byte at or beyond \<open>inputLen\<close> and writes no
  byte at or beyond \<open>maxOutputLen\<close> (no fault is returned), and the length it returns is
  at most \<open>maxOutputLen\<close>. On arrays of the declared sizes the result is the specified
  decoding: the segments that fit, with the rest of the output array untouched. Where
  the next segment would overflow the output or run past the input, the loop stops at
  once and returns the count \<open>j\<close> reached so far with the output as it stands.
\<close>

theorem unpackBits_truncation_safe:
  "(\<exists>j output'. unpackBits input inputLen output maxOutputLen = Inr (j, output') \<and> j \<le> maxOutputLen) \<and>
   (inputLen = length input \<and> maxOutputLen \<le> length output \<longrightarrow>
      unpackBits input inputLen output maxOutputLen =
        Inr (length (rle_decode input maxOutputLen),
             rle_decode input maxOutputLen @ drop (length (rle_decode input maxOutputLen)) output)) \<and>
   (i < inputLen \<and> j < maxOutputLen \<and> 0 \<le> sint (input ! i) \<and>
      (maxOutputLen < j + (nat (sint (input ! i)) + 1) \<or>
       inputLen < i + 1 + (nat (sint (input ! i)) + 1)) \<longrightarrow>
      unpackBits_loop input inputLen maxOutputLen i j output = Inr (j, output)) \<and>
   (i < inputLen \<and> j < maxOutputLen \<and> sint (input ! i) < 0 \<and> sint (input ! i) \<noteq> - 128 \<and>
      (maxOutputLen < j + nat (1 - sint (input ! i)) \<or> inputLen \<le> i + 1) \<longrightarrow>
      unpackBits_loop input inputLen maxOutputLen i j output = Inr (j, output))"
proof (intro conjI impI)
  show "\<exists>j output'. unpackBits input inputLen output maxOutputLen = Inr (j, output') \<and> j \<le> maxOutputLen"
    unfolding unpackBits_def by (rule unpackBits_loop_safe) simp
next
  assume "inputLen = length input \<and> maxOutputLen \<le> length output"
  then show "unpackBits input inputLen output maxOutputLen =
        Inr (length (rle_decode input maxOutputLen),
             rle_decode input maxOutputLen @ drop (length (rle_decode input maxOutputLen)) output)"
    by (simp add: unpackBits_decode)
next
  assume "i < inputLen \<and> j < maxOutputLen \<and> 0 \<le> sint (input ! i) \<and>
      (maxOutputLen < j + (nat (sint (input ! i)) + 1) \<or>
       inputLen < i + 1 + (nat (sint (input ! i)) + 1))"
  then show "unpackBits_loop input inputLen maxOutputLen i j output = Inr (j, output)"
    by (intro unpackBits_loop_literal_break) blast+
next
  assume a: "i < inputLen \<and> j < maxOutputLen \<and> sint (input ! i) < 0 \<and> sint (input ! i) \<noteq> - 128 \<and>
      (maxOutputLen < j + nat (1 - sint (input ! i)) \<or> inputLen \<le> i + 1)"
  then have "\<not> 0 \<le> sint (input ! i)" by linarith
  with a show "unpackBits_loop input inputLen maxOutputLen i j output = Inr (j, output)"
    by (intro unpackBits_loop_repeat_break) blast+
qed

theorem unpackBits_truncation_safe_witness:
  "(4::nat) = length [0x00, 0x41, 0x05, 0x42 :: byte] \<and> (4::nat) \<le> length ([9, 9, 9, 9 :: byte]) \<and>
   unpackBits [0x00, 0x41, 0x05, 0x42] 4 [9, 9, 9, 9] 4 = Inr (1, [0x41, 9, 9, 9]) \<and>
   (2::nat) < 4 \<and> (1::nat) < 4 \<and> 0 \<le> sint ([0x00, 0x41, 0x05, 0x42 :: byte] ! 2) \<and>
   (4::nat) < 2 + 1 + (nat (sint ([0x00, 0x41, 0x05, 0x42 :: byte] ! 2)) + 1) \<and>
   unpackBits_loop [0x00, 0x41, 0x05, 0x42] 4 4 2 1 [0x41, 9, 9, 9] = Inr (1, [0x41, 9, 9, 9]) \<and>
   (2::nat) < 3 \<and> (1::nat) < 4 \<and> sint ([0x80, 0x05, 0xFD :: byte] ! 2) < 0 \<and>
   sint ([0x80, 0x05, 0xFD :: byte] ! 2) \<noteq> - 128 \<and> (3::nat) \<le> 2 + 1 \<and>
   unpackBits_loop [0x80, 0x05, 0xFD] 3 4 2 1 [9, 9, 9, 9] = Inr (1, [9, 9, 9, 9])"
  using unpackBits_truncation_safe [of "[0x00, 0x41, 0x05, 0x42]" 4 "[9, 9, 9, 9]" 4 2 1]
    unpackBits_truncation_safe [of "[0x00, 0x41, 0x05, 0x42]" 4 "[0x41, 9, 9, 9]" 4 2 1]
    unpackBits_truncation_safe [of "[0x80, 0x05, 0xFD]" 3 "[9, 9, 9, 9]" 4 2 1]
  by (simp add: rle_decode.simps)

section \<open>Delta engine\<close>

subsection \<open>Both loops are the byte-wise exclusive-or\<close>

lemma apply_delta_loop_nth:
  "length frameState = n \<Longrightarrow> i \<le> n \<Longrightarrow>
   apply_delta_loop n i frameState deltaBuffer =
   take i frameState @ map (\<lambda>k. frameState ! k XOR deltaBuffer ! k) [i..<n]"
proof (induction n i frameState deltaBuffer rule: apply_delta_loop.induct)
  case (1 n i frameState deltaBuffer)
  show ?case
  proof (cases "i < n")
    case True
    let ?cf = "frameState[i := frameState ! i XOR deltaBuffer ! i]"
    have unfold: "apply_delta_loop n i frameState deltaBuffer = apply_delta_loop n (i + 1) ?cf deltaBuffer"
      using apply_delta_loop.simps [of n i frameState deltaBuffer] unfolding if_P [OF True] .
    have len: "length ?cf = n" using "1.prems"(1) by simp
    have i1: "i + 1 \<le> n" using True by simp
    have "map (\<lambda>k. ?cf ! k XOR deltaBuffer ! k) [i + 1..<n] =
          map (\<lambda>k. frameState ! k XOR deltaBuffer ! k) [i + 1..<n]"
      by (rule map_cong) auto
    moreover have "take (i + 1) ?cf = take i frameState @ [frameState ! i XOR deltaBuffer ! i]"
      using True "1.prems"(1) by (simp add: take_Suc_conv_app_nth)
    moreover have "[i..<n] = i # [i + 1..<n]"
      using True by (simp add: upt_conv_Cons)
    ultimately show ?thesis
      unfolding unfold "1.IH" [OF True len i1] by simp
  next
    case False
    have unfold: "apply_delta_loop n i frameState deltaBuffer = frameState"
      using apply_delta_loop.simps [of n i frameState deltaBuffer] unfolding if_not_P [OF False] .
    show ?thesis
      unfolding unfold using False "1.prems" by simp
  qed
qed

lemma apply_delta_loop_map2:
  "length frameState = n \<Longrightarrow> length deltaBuffer = n \<Longrightarrow>
   apply_delta_loop n 0 frameState deltaBuffer = map2 (XOR) frameState deltaBuffer"
  by (simp add: apply_delta_loop_nth list_eq_iff_nth_eq)

lemma delta_loop_nth:
  "length deltaBuffer = n \<Longrightarrow> i \<le> n \<Longrightarrow>
   delta_loop n i frameBuffer previous deltaBuffer =
   take i deltaBuffer @ map (\<lambda>k. js_byte frameBuffer k XOR js_byte previous k) [i..<n]"
proof (induction n i frameBuffer previous deltaBuffer rule: delta_loop.induct)
  case (1 n i frameBuffer previous deltaBuffer)
  show ?case
  proof (cases "i < n")
    case True
    let ?v = "js_byte frameBuffer i XOR js_byte previous i"
    let ?d = "deltaBuffer[i := ?v]"
    have unfold: "delta_loop n i frameBuffer previous deltaBuffer =
        delta_loop n (i + 1) frameBuffer previous ?d"
      using delta_loop.simps [of n i frameBuffer previous deltaBuffer]
      unfolding if_P [OF True] .
    have len: "length ?d = n" using "1.prems"(1) by simp
    have i1: "i + 1 \<le> n" using True by simp
    have "take (i + 1) ?d = take i deltaBuffer @ [?v]"
      using True "1.prems"(1) by (simp add: take_Suc_conv_app_nth)
    moreover have "[i..<n] = i # [i + 1..<n]"
      using True by (simp add: upt_conv_Cons)
    ultimately show ?thesis
      unfolding unfold "1.IH" [OF True len i1] by simp
  next
    case False
    have unfold: "delta_loop n i frameBuffer previous deltaBuffer = deltaBuffer"
      using delta_loop.simps [of n i frameBuffer previous deltaBuffer]
      unfolding if_not_P [OF False] .
    show ?thesis
      unfolding unfold using False "1.prems" by simp
  qed
qed

lemma xor_delta_map2:
  "length frameBuffer = n \<Longrightarrow> length previous = n \<Longrightarrow>
   xor_delta n frameBuffer previous = map2 (XOR) frameBuffer previous"
  by (simp add: xor_delta_def delta_loop_nth list_eq_iff_nth_eq js_byte_def)

lemma xor_delta_length: "length (xor_delta n frameBuffer previous) = n"
  by (simp add: xor_delta_def delta_loop_nth)

lemma xor_cancel:
  "length prev = length cur \<Longrightarrow> map2 (XOR) prev (map2 (XOR) cur prev) = cur"
  by (simp add: list_eq_iff_nth_eq xor.commute xor.left_commute)

text \<open>
  C2. Delta correctness end to end: for every pair of byte buffers \<open>prev\<close> and \<open>cur\<close>
  of equal length \<open>n\<close>, the producer's difference of \<open>cur\<close> against \<open>prev\<close>, encoded
  by \<open>packBits\<close> and decoded by \<open>unpackBits\<close> with bound \<open>n\<close>, decodes to \<open>n\<close>
  bytes, and the consumer's exclusive-or of these bytes into \<open>prev\<close> gives exactly
  \<open>cur\<close>.
\<close>

theorem delta_roundtrip:
  "length prev = n \<Longrightarrow> length cur = n \<Longrightarrow> length output = n \<Longrightarrow>
   \<exists>decoded.
     unpackBits (packBits (xor_delta n cur prev)) (length (packBits (xor_delta n cur prev))) output n =
       Inr (n, decoded) \<and>
     apply_delta_loop n 0 prev decoded = cur"
proof -
  assume prev: "length prev = n" and cur: "length cur = n" and out: "length output = n"
  let ?delta = "xor_delta n cur prev"
  have len: "length ?delta = n" by (rule xor_delta_length)
  have "unpackBits (packBits ?delta) (length (packBits ?delta)) output (length ?delta) =
      Inr (length ?delta, ?delta)"
    by (rule unpackBits_packBits) (simp add: out len)
  then have dec: "unpackBits (packBits ?delta) (length (packBits ?delta)) output n = Inr (n, ?delta)"
    by (simp only: len)
  have "apply_delta_loop n 0 prev ?delta = map2 (XOR) prev (map2 (XOR) cur prev)"
    using prev cur len by (simp add: apply_delta_loop_map2 xor_delta_map2)
  also have "\<dots> = cur"
    using prev cur by (simp add: xor_cancel)
  finally show ?thesis using dec by blast
qed

theorem delta_roundtrip_witness:
  "length [1, 2, 3 :: byte] = 3 \<and> length [1, 2, 4 :: byte] = 3 \<and> length (replicate 3 (0::byte)) = 3 \<and>
   (\<exists>decoded.
     unpackBits (packBits (xor_delta 3 [1, 2, 4] [1, 2, 3]))
       (length (packBits (xor_delta 3 [1, 2, 4] [1, 2, 3]))) (replicate 3 0) 3 = Inr (3, decoded) \<and>
     apply_delta_loop 3 0 [1, 2, 3] decoded = [1, 2, 4])"
  using delta_roundtrip [of "[1, 2, 3]" 3 "[1, 2, 4]" "replicate 3 0"] by simp

section \<open>Consumer: the packet handler\<close>

subsection \<open>The handler on a verified frame\<close>

lemma onPacketReceived_verified:
  "buffer \<noteq> [] \<Longrightarrow> VerifyFrameBuffer buffer \<Longrightarrow>
   frame_data (GetFrame buffer) = Some dataVector \<Longrightarrow>
   crc32_cpp dataVector = frame_crc32 (GetFrame buffer) \<Longrightarrow>
   onPacketReceived VerifyFrameBuffer GetFrame deltaBuffer buffer dev =
     (case applyFrame (frame_type (GetFrame buffer)) dataVector deltaBuffer (currentFrame dev) of
        Inl f \<Rightarrow> Inl f
      | Inr frameState' \<Rightarrow>
          Inr (sendStatus STATUS_OK (displayGraphicImage (dev\<lparr>currentFrame := frameState'\<rparr>))))"
  by (simp add: onPacketReceived_def Let_def)

lemma applyFrame_Delta:
  "unpackBits dataVector (length dataVector) deltaBuffer 560 = Inr (decodedLen, deltaBuffer') \<Longrightarrow>
   applyFrame FrameType_Delta dataVector deltaBuffer frameState =
     Inr (if decodedLen = 560 then apply_delta_loop 560 0 frameState deltaBuffer' else frameState)"
  by (simp add: applyFrame_def Let_def)

lemma applyFrame_Full:
  "applyFrame FrameType_Full dataVector deltaBuffer frameState =
     Inr (if length dataVector \<le> 560
          then dataVector @ drop (length dataVector) frameState else frameState)"
  by (simp add: applyFrame_def Let_def memcpy_def)

lemma crc32_cpp_empty: "crc32_cpp [] = 0"
  by (simp add: crc32_cpp_def crc32_cpp_loop.simps)

lemma unpackBits_empty: "unpackBits [] 0 deltaBuffer 560 = Inr (0, deltaBuffer)"
  by (simp add: unpackBits_def unpackBits_loop_stop)

lemma applyFrame_empty: "applyFrame type [] deltaBuffer frameState = Inr frameState"
  by (cases type) (simp_all add: applyFrame_def memcpy_def unpackBits_empty)

lemma unpackBits_noop_only:
  "unpackBits [0x80] (length [0x80 :: byte]) deltaBuffer 560 = Inr (0, deltaBuffer)"
  by (simp add: unpackBits_def unpackBits_loop_noop unpackBits_loop_stop)

text \<open>
  C6. Exact-length guard on Delta application: for every received Delta frame that
  passes structural and checksum verification, the decoded payload is exclusive-ored
  into the frame state if and only if \<open>unpackBits\<close> returns exactly 560, which is when
  the payload decodes to exactly 560 bytes; on any other decoded length the frame state
  is unchanged.
\<close>

theorem delta_applied_iff_exact_length:
  assumes "buffer \<noteq> []" and "VerifyFrameBuffer buffer"
    and "frame_data (GetFrame buffer) = Some dataVector"
    and "crc32_cpp dataVector = frame_crc32 (GetFrame buffer)"
    and "frame_type (GetFrame buffer) = FrameType_Delta"
    and "length (currentFrame dev) = 560" and "length deltaBuffer = 560"
  shows "\<exists>decodedLen deltaBuffer' dev'.
      unpackBits dataVector (length dataVector) deltaBuffer 560 = Inr (decodedLen, deltaBuffer') \<and>
      onPacketReceived VerifyFrameBuffer GetFrame deltaBuffer buffer dev = Inr dev' \<and>
      currentFrame dev' =
        (if decodedLen = 560 then map2 (XOR) (currentFrame dev) deltaBuffer' else currentFrame dev) \<and>
      (decodedLen = 560 \<longleftrightarrow> length (rle_decode dataVector 560) = 560) \<and>
      (decodedLen = 560 \<longrightarrow> deltaBuffer' = rle_decode dataVector 560)"
proof -
  let ?d = "rle_decode dataVector 560"
  let ?db = "?d @ drop (length ?d) deltaBuffer"
  have dec: "unpackBits dataVector (length dataVector) deltaBuffer 560 = Inr (length ?d, ?db)"
    using assms(7) by (simp add: unpackBits_decode)
  have full: "?db = ?d" if "length ?d = 560"
    using that assms(7) by simp
  have len: "length ?db = 560"
    using assms(7) rle_decode_length [of dataVector 560] by simp
  let ?cf = "if length ?d = 560 then apply_delta_loop 560 0 (currentFrame dev) ?db else currentFrame dev"
  have run: "onPacketReceived VerifyFrameBuffer GetFrame deltaBuffer buffer dev =
      Inr (sendStatus STATUS_OK (displayGraphicImage (dev\<lparr>currentFrame := ?cf\<rparr>)))"
    unfolding onPacketReceived_verified [where VerifyFrameBuffer = VerifyFrameBuffer and GetFrame = GetFrame, OF assms(1-4)] assms(5) applyFrame_Delta [OF dec] by simp
  have xor_eq: "apply_delta_loop 560 0 (currentFrame dev) ?db = map2 (XOR) (currentFrame dev) ?db"
    using assms(6) len by (rule apply_delta_loop_map2)
  have cf: "?cf = (if length ?d = 560 then map2 (XOR) (currentFrame dev) ?db else currentFrame dev)"
    unfolding xor_eq ..
  show ?thesis
    using dec run cf full
    by (intro exI [of _ "length ?d"] exI [of _ ?db]
        exI [of _ "sendStatus STATUS_OK (displayGraphicImage (dev\<lparr>currentFrame := ?cf\<rparr>))"])
       (simp add: sendStatus_def displayGraphicImage_def)
qed

theorem delta_applied_iff_exact_length_witness:
  "sample_packet \<noteq> [] \<and> sample_verifier sample_packet \<and>
   length (currentFrame blank_device) = 560 \<and> length (replicate 560 (0::byte)) = 560 \<and>
   (\<exists>decodedLen deltaBuffer' dev'.
      unpackBits [0x81, 0xFF, 0x80] (length [0x81, 0xFF, 0x80 :: byte]) (replicate 560 0) 560 =
        Inr (decodedLen, deltaBuffer') \<and>
      onPacketReceived sample_verifier
        (\<lambda>b. \<lparr>frame_type = FrameType_Delta, frame_data = Some [0x81, 0xFF, 0x80],
               frame_crc32 = crc32_cpp [0x81, 0xFF, 0x80]\<rparr>)
        (replicate 560 0) sample_packet blank_device = Inr dev' \<and>
      currentFrame dev' =
        (if decodedLen = 560 then map2 (XOR) (currentFrame blank_device) deltaBuffer'
         else currentFrame blank_device))"
  using delta_applied_iff_exact_length [of sample_packet sample_verifier
      "\<lambda>b. \<lparr>frame_type = FrameType_Delta, frame_data = Some [0x81, 0xFF, 0x80],
               frame_crc32 = crc32_cpp [0x81, 0xFF, 0x80]\<rparr>"
      "[0x81, 0xFF, 0x80]" blank_device "replicate 560 0"]
  by (auto simp add: sample_packet_def sample_verifier_def blank_device_def)

text \<open>
  C9. Success status despite a failed Delta decode: for every verified Delta frame
  whose decode does not return exactly 560, the consumer leaves the frame state as it
  is, still shows it, and sends the success status \<open>0xA5\<close>; nothing else is sent.
\<close>

theorem failed_delta_still_acknowledged:
  assumes "buffer \<noteq> []" and "VerifyFrameBuffer buffer"
    and "frame_data (GetFrame buffer) = Some dataVector"
    and "crc32_cpp dataVector = frame_crc32 (GetFrame buffer)"
    and "frame_type (GetFrame buffer) = FrameType_Delta"
    and "unpackBits dataVector (length dataVector) deltaBuffer 560 = Inr (decodedLen, deltaBuffer')"
    and "decodedLen \<noteq> 560"
    and "length (currentFrame dev) = 560"
  shows "onPacketReceived VerifyFrameBuffer GetFrame deltaBuffer buffer dev =
      Inr (dev\<lparr>serial_tx := serial_tx dev @ [0xA5],
                vfd_images := vfd_images dev @ [currentFrame dev]\<rparr>)"
  unfolding onPacketReceived_verified [where VerifyFrameBuffer = VerifyFrameBuffer and GetFrame = GetFrame, OF assms(1-4)] assms(5) applyFrame_Delta [OF assms(6)]
  using assms(7) assms(8)
  by (simp add: sendStatus_def displayGraphicImage_def STATUS_OK_def)

theorem failed_delta_still_acknowledged_witness:
  "sample_packet \<noteq> [] \<and> sample_verifier sample_packet \<and> (0::nat) \<noteq> 560 \<and>
   length (currentFrame blank_device) = 560 \<and>
   unpackBits [0x80] (length [0x80 :: byte]) (replicate 560 0) 560 = Inr (0, replicate 560 0) \<and>
   onPacketReceived sample_verifier
     (\<lambda>b. \<lparr>frame_type = FrameType_Delta, frame_data = Some [0x80], frame_crc32 = crc32_cpp [0x80]\<rparr>)
     (replicate 560 0) sample_packet blank_device =
     Inr (blank_device\<lparr>serial_tx := [0xA5], vfd_images := [replicate 560 0]\<rparr>)"
  using failed_delta_still_acknowledged [of sample_packet sample_verifier
      "\<lambda>b. \<lparr>frame_type = FrameType_Delta, frame_data = Some [0x80], frame_crc32 = crc32_cpp [0x80]\<rparr>"
      "[0x80]" "replicate 560 0" 0 "replicate 560 0" blank_device]
    unpackBits_noop_only [of "replicate 560 0"]
  by (simp add: sample_packet_def sample_verifier_def blank_device_def)

text \<open>
  C10. Full frames of the wrong size: for every verified Full frame whose payload is
  longer than 560 bytes, the frame state is unchanged, yet it is shown and \<open>0xA5\<close> is
  sent; for a Full payload shorter than 560 bytes, the first bytes of the frame state
  are replaced by the payload and the tail keeps its contents.
\<close>

theorem full_frame_length_handling:
  assumes "buffer \<noteq> []" and "VerifyFrameBuffer buffer"
    and "frame_data (GetFrame buffer) = Some dataVector"
    and "crc32_cpp dataVector = frame_crc32 (GetFrame buffer)"
    and "frame_type (GetFrame buffer) = FrameType_Full"
    and "length (currentFrame dev) = 560"
  shows "(560 < length dataVector \<longrightarrow>
      onPacketReceived VerifyFrameBuffer GetFrame deltaBuffer buffer dev =
        Inr (dev\<lparr>serial_tx := serial_tx dev @ [0xA5],
                  vfd_images := vfd_images dev @ [currentFrame dev]\<rparr>)) \<and>
    (length dataVector < 560 \<longrightarrow>
      onPacketReceived VerifyFrameBuffer GetFrame deltaBuffer buffer dev =
        Inr (dev\<lparr>currentFrame := dataVector @ drop (length dataVector) (currentFrame dev),
                  serial_tx := serial_tx dev @ [0xA5],
                  vfd_images := vfd_images dev @
                    [dataVector @ drop (length dataVector) (currentFrame dev)]\<rparr>))"
  unfolding onPacketReceived_verified [where VerifyFrameBuffer = VerifyFrameBuffer and GetFrame = GetFrame, OF assms(1-4)] assms(5) applyFrame_Full
  using assms(6)
  by (simp add: sendStatus_def displayGraphicImage_def STATUS_OK_def)

theorem full_frame_length_handling_witness:
  "sample_packet \<noteq> [] \<and> sample_verifier sample_packet \<and> length (currentFrame blank_device) = 560 \<and>
   560 < length (replicate 561 (1::byte)) \<and>
   onPacketReceived sample_verifier
     (\<lambda>b. \<lparr>frame_type = FrameType_Full, frame_data = Some (replicate 561 1),
            frame_crc32 = crc32_cpp (replicate 561 1)\<rparr>)
     (replicate 560 0) sample_packet blank_device =
     Inr (blank_device\<lparr>serial_tx := [0xA5], vfd_images := [replicate 560 0]\<rparr>) \<and>
   length [1, 2, 3 :: byte] < 560 \<and>
   onPacketReceived sample_verifier
     (\<lambda>b. \<lparr>frame_type = FrameType_Full, frame_data = Some [1, 2, 3],
            frame_crc32 = crc32_cpp [1, 2, 3]\<rparr>)
     (replicate 560 0) sample_packet blank_device =
     Inr (blank_device\<lparr>currentFrame := [1, 2, 3] @ replicate 557 0, serial_tx := [0xA5],
            vfd_images := [[1, 2, 3] @ replicate 557 0]\<rparr>)"
  using full_frame_length_handling [of sample_packet sample_verifier
      "\<lambda>b. \<lparr>frame_type = FrameType_Full, frame_data = Some (replicate 561 1),
            frame_crc32 = crc32_cpp (replicate 561 1)\<rparr>"
      "replicate 561 1" blank_device "replicate 560 0"]
    full_frame_length_handling [of sample_packet sample_verifier
      "\<lambda>b. \<lparr>frame_type = FrameType_Full, frame_data = Some [1, 2, 3],
            frame_crc32 = crc32_cpp [1, 2, 3]\<rparr>"
      "[1, 2, 3]" blank_device "replicate 560 0"]
  by (simp add: sample_packet_def sample_verifier_def blank_device_def)

text \<open>
  C7, as amended. For every received packet that is not empty: if it fails structural
  verification, or it passes, carries a payload and the CRC-32 of the payload differs
  from its checksum field, the consumer sends \<open>0xE1\<close>; if it passes and its data field
  is absent, the consumer sends \<open>0xE2\<close>. In each case the frame state is unchanged and
  nothing is shown.
\<close>

theorem rejected_packets_not_applied:
  assumes "buffer \<noteq> []"
  shows "(\<not> VerifyFrameBuffer buffer \<longrightarrow>
      onPacketReceived VerifyFrameBuffer GetFrame deltaBuffer buffer dev =
        Inr (dev\<lparr>serial_tx := serial_tx dev @ [0xE1]\<rparr>)) \<and>
    (VerifyFrameBuffer buffer \<and> frame_data (GetFrame buffer) = None \<longrightarrow>
      onPacketReceived VerifyFrameBuffer GetFrame deltaBuffer buffer dev =
        Inr (dev\<lparr>serial_tx := serial_tx dev @ [0xE2]\<rparr>)) \<and>
    (VerifyFrameBuffer buffer \<and> frame_data (GetFrame buffer) = Some dataVector \<and>
     crc32_cpp dataVector \<noteq> frame_crc32 (GetFrame buffer) \<longrightarrow>
      onPacketReceived VerifyFrameBuffer GetFrame deltaBuffer buffer dev =
        Inr (dev\<lparr>serial_tx := serial_tx dev @ [0xE1]\<rparr>))"
  using assms
  by (simp add: onPacketReceived_def Let_def sendStatus_def STATUS_ERR_VERIFY_def STATUS_ERR_NODATA_def)

theorem rejected_packets_not_applied_witness:
  "[0xFF :: byte] \<noteq> [] \<and> \<not> sample_verifier [0xFF] \<and>
   onPacketReceived sample_verifier
     (\<lambda>b. \<lparr>frame_type = FrameType_Full, frame_data = None, frame_crc32 = 0\<rparr>)
     (replicate 560 0) [0xFF] blank_device = Inr (blank_device\<lparr>serial_tx := [0xE1]\<rparr>) \<and>
   sample_packet \<noteq> [] \<and> sample_verifier sample_packet \<and>
   onPacketReceived sample_verifier
     (\<lambda>b. \<lparr>frame_type = FrameType_Full, frame_data = None, frame_crc32 = 0\<rparr>)
     (replicate 560 0) sample_packet blank_device = Inr (blank_device\<lparr>serial_tx := [0xE2]\<rparr>) \<and>
   crc32_cpp [] \<noteq> 1 \<and>
   onPacketReceived sample_verifier
     (\<lambda>b. \<lparr>frame_type = FrameType_Full, frame_data = Some [], frame_crc32 = 1\<rparr>)
     (replicate 560 0) sample_packet blank_device = Inr (blank_device\<lparr>serial_tx := [0xE1]\<rparr>)"
  using rejected_packets_not_applied [of "[0xFF]" sample_verifier
      "\<lambda>b. \<lparr>frame_type = FrameType_Full, frame_data = None, frame_crc32 = 0\<rparr>"
      "replicate 560 0" blank_device "[]"]
    rejected_packets_not_applied [of sample_packet sample_verifier
      "\<lambda>b. \<lparr>frame_type = FrameType_Full, frame_data = None, frame_crc32 = 0\<rparr>"
      "replicate 560 0" blank_device "[]"]
    rejected_packets_not_applied [of sample_packet sample_verifier
      "\<lambda>b. \<lparr>frame_type = FrameType_Full, frame_data = Some [], frame_crc32 = 1\<rparr>"
      "replicate 560 0" blank_device "[]"]
  by (simp add: sample_packet_def sample_verifier_def blank_device_def crc32_cpp_empty)

text \<open>
  C7 as stated fails on the empty packet: the handler returns at its first line, before
  any verification, and sends no status at all.
\<close>

theorem empty_packet_gets_no_status:
  "\<not> sample_verifier [] \<and>
   onPacketReceived sample_verifier
     (\<lambda>b. \<lparr>frame_type = FrameType_Full, frame_data = None, frame_crc32 = 0\<rparr>)
     (replicate 560 0) [] blank_device = Inr blank_device \<and>
   serial_tx blank_device = [] \<and>
   onPacketReceived sample_verifier
     (\<lambda>b. \<lparr>frame_type = FrameType_Full, frame_data = None, frame_crc32 = 0\<rparr>)
     (replicate 560 0) [] blank_device \<noteq> Inr (blank_device\<lparr>serial_tx := [0xE1]\<rparr>)"
  by (simp add: onPacketReceived_def sample_verifier_def blank_device_def)

text \<open>
  C8, as amended. For every verified received message whose data field is absent, the
  consumer reports \<open>0xE2\<close>, which is neither the checksum error nor success. A data
  vector that is present but empty is not reported as missing: it goes through the
  checksum comparison as any payload does, so the consumer sends \<open>0xE1\<close> when the
  checksum field is not the CRC-32 of the empty sequence (which is 0), and otherwise
  shows the unchanged frame state and sends \<open>0xA5\<close>.
\<close>

theorem payload_missing_only_when_absent:
  assumes "buffer \<noteq> []" and "VerifyFrameBuffer buffer"
    and "length (currentFrame dev) = 560"
  shows "(frame_data (GetFrame buffer) = None \<longrightarrow>
      onPacketReceived VerifyFrameBuffer GetFrame deltaBuffer buffer dev =
        Inr (dev\<lparr>serial_tx := serial_tx dev @ [0xE2]\<rparr>)) \<and>
    (frame_data (GetFrame buffer) = Some [] \<longrightarrow>
      onPacketReceived VerifyFrameBuffer GetFrame deltaBuffer buffer dev =
        (if frame_crc32 (GetFrame buffer) = 0
         then Inr (dev\<lparr>serial_tx := serial_tx dev @ [0xA5],
                       vfd_images := vfd_images dev @ [currentFrame dev]\<rparr>)
         else Inr (dev\<lparr>serial_tx := serial_tx dev @ [0xE1]\<rparr>)))"
  using assms
  by (auto simp add: onPacketReceived_def Let_def sendStatus_def displayGraphicImage_def
      STATUS_ERR_VERIFY_def STATUS_ERR_NODATA_def STATUS_OK_def crc32_cpp_empty applyFrame_empty)

theorem payload_missing_only_when_absent_witness:
  "sample_packet \<noteq> [] \<and> sample_verifier sample_packet \<and> length (currentFrame blank_device) = 560 \<and>
   onPacketReceived sample_verifier
     (\<lambda>b. \<lparr>frame_type = FrameType_Delta, frame_data = None, frame_crc32 = 0\<rparr>)
     (replicate 560 0) sample_packet blank_device = Inr (blank_device\<lparr>serial_tx := [0xE2]\<rparr>) \<and>
   onPacketReceived sample_verifier
     (\<lambda>b. \<lparr>frame_type = FrameType_Delta, frame_data = Some [], frame_crc32 = 7\<rparr>)
     (replicate 560 0) sample_packet blank_device = Inr (blank_device\<lparr>serial_tx := [0xE1]\<rparr>)"
  using payload_missing_only_when_absent [of sample_packet sample_verifier blank_device
      "\<lambda>b. \<lparr>frame_type = FrameType_Delta, frame_data = None, frame_crc32 = 0\<rparr>" "replicate 560 0"]
    payload_missing_only_when_absent [of sample_packet sample_verifier blank_device
      "\<lambda>b. \<lparr>frame_type = FrameType_Delta, frame_data = Some [], frame_crc32 = 7\<rparr>" "replicate 560 0"]
  by (simp add: sample_packet_def sample_verifier_def blank_device_def)

text \<open>
  C8 as stated fails on an empty data vector with checksum 0: the consumer shows the
  frame and acknowledges it with \<open>0xA5\<close>.
\<close>

theorem empty_payload_acknowledged:
  "sample_verifier sample_packet \<and>
   onPacketReceived sample_verifier
     (\<lambda>b. \<lparr>frame_type = FrameType_Full, frame_data = Some [], frame_crc32 = 0\<rparr>)
     (replicate 560 0) sample_packet blank_device =
     Inr (blank_device\<lparr>serial_tx := [0xA5], vfd_images := [replicate 560 0]\<rparr>) \<and>
   onPacketReceived sample_verifier
     (\<lambda>b. \<lparr>frame_type = FrameType_Full, frame_data = Some [], frame_crc32 = 0\<rparr>)
     (replicate 560 0) sample_packet blank_device \<noteq>
     Inr (blank_device\<lparr>serial_tx := [0xE2]\<rparr>)"
  by (simp add: onPacketReceived_def Let_def sample_packet_def sample_verifier_def blank_device_def
      crc32_cpp_empty applyFrame_empty sendStatus_def displayGraphicImage_def STATUS_OK_def)

section \<open>Producer: choosing Full or Delta\<close>








end
